theory Spec2Isabelle
  imports Complex_Main
begin

section \<open>Data model (types.ts)\<close>

text \<open>
  \<open>PlayerId\<close> is the TypeScript type \<open>0 | 1 | 2\<close>; at run time it is a number, and the
  model takes every natural number, so that each theorem covers the three values of the
  type. A \<open>HexCoord\<close> \<open>{q, r}\<close> is the pair \<open>(q, r)\<close>. The fields \<open>id\<close>, \<open>q\<close> and \<open>r\<close>
  of a cell are written \<open>cell_id\<close>, \<open>cell_q\<close> and \<open>cell_r\<close>, and the field \<open>round\<close> of the
  state is written \<open>round_no\<close>, because the short names are taken in HOL.
\<close>

type_synonym PlayerId = nat

type_synonym HexCoord = "int \<times> int"

text \<open>
  The \<open>units\<close> of a cell is a JavaScript number. The engine writes it with sums,
  differences and \<open>Math.min\<close> of the numbers on the board and of the unit count that a
  caller passes to \<open>move\<close>; these operations give a finite number or \<open>NaN\<close>, and
  \<open>number\<close> has these two cases (a finite floating-point number is modelled by a real).
  Arithmetic with \<open>NaN\<close> gives \<open>NaN\<close>, and every comparison with \<open>NaN\<close> is false, so
  \<open>\<not> a < b\<close> and \<open>b \<le> a\<close> are different tests. \<open>Math.min\<close> is \<open>NaN\<close> as soon as one
  argument is. A \<open>for (let i = 0; i < n; i++)\<close> loop runs \<open>loopCount n\<close> times.
\<close>

datatype number = Num real | NaN

instantiation number :: "{zero, one, plus, minus, ord}"
begin

definition zero_number :: number where
  "zero_number = Num 0"

definition one_number :: number where
  "one_number = Num 1"

fun plus_number :: "number \<Rightarrow> number \<Rightarrow> number" where
  "plus_number (Num a) (Num b) = Num (a + b)"
| "plus_number (Num a) NaN = NaN"
| "plus_number NaN b = NaN"

fun minus_number :: "number \<Rightarrow> number \<Rightarrow> number" where
  "minus_number (Num a) (Num b) = Num (a - b)"
| "minus_number (Num a) NaN = NaN"
| "minus_number NaN b = NaN"

fun less_number :: "number \<Rightarrow> number \<Rightarrow> bool" where
  "less_number (Num a) (Num b) \<longleftrightarrow> a < b"
| "less_number (Num a) NaN \<longleftrightarrow> False"
| "less_number NaN b \<longleftrightarrow> False"

fun less_eq_number :: "number \<Rightarrow> number \<Rightarrow> bool" where
  "less_eq_number (Num a) (Num b) \<longleftrightarrow> a \<le> b"
| "less_eq_number (Num a) NaN \<longleftrightarrow> False"
| "less_eq_number NaN b \<longleftrightarrow> False"

instance ..

end

instance number :: semigroup_add
proof
  fix a b c :: number
  show "a + b + c = a + (b + c)"
    by (cases a; cases b; cases c) simp_all
qed

instance number :: numeral ..

fun Math_min :: "number \<Rightarrow> number \<Rightarrow> number" where
  "Math_min (Num a) (Num b) = Num (min a b)"
| "Math_min (Num a) NaN = NaN"
| "Math_min NaN b = NaN"

fun loopCount :: "number \<Rightarrow> nat" where
  "loopCount (Num n) = nat \<lceil>n\<rceil>"
| "loopCount NaN = 0"

text \<open>
  The \<open>unitCount\<close> that \<open>move\<close> receives is any JavaScript number: a finite number or
  \<open>NaN\<close>, \<open>Infinity\<close> or \<open>-Infinity\<close>. A missing argument is \<open>undefined\<close>, which
  \<open>Math.min\<close> converts to \<open>NaN\<close>, so it is \<open>Count NaN\<close> too. \<open>Math_min_count\<close> is
  \<open>Math.min\<close> of a unit count and a number of the board; it is never \<open>Infinity\<close>.
  \<open>finalMove <= 0\<close> holds of \<open>-Infinity\<close>.
\<close>

datatype unitCount = Count number | Infinity | NegInfinity

fun Math_min_count :: "unitCount \<Rightarrow> number \<Rightarrow> unitCount" where
  "Math_min_count (Count a) b = Count (Math_min a b)"
| "Math_min_count Infinity b = Count b"
| "Math_min_count NegInfinity (Num b) = NegInfinity"
| "Math_min_count NegInfinity NaN = Count NaN"

record Cell =
  cell_id :: int
  cell_q :: int
  cell_r :: int
  owner :: PlayerId
  units :: number
  land :: bool

datatype Phase = Reinforce | Attack | Move

record DiceRoll =
  attacker :: "int list"
  defender :: "int list"
  attackerTotal :: int
  defenderTotal :: int
  attackerWins :: bool
  attackerId :: PlayerId
  defenderId :: PlayerId

text \<open>
  The fields of \<open>GameState\<close> that the rules engine reads or writes. The display fields
  (\<open>moveSource\<close>, \<open>moveDestination\<close>, \<open>lastDiceRoll\<close>, \<open>pendingCombatResult\<close>) live in the
  extension part of the record: every engine function copies the state with
  \<open>{ ...state }\<close> and so carries them over untouched, which is what a function on
  \<open>'a GameState_scheme\<close> does.
\<close>

record GameState =
  cells :: "Cell list"
  players :: "PlayerId list"
  current :: PlayerId
  phase :: Phase
  reinfLeft :: int
  actionsLeft :: int
  scores :: "PlayerId \<Rightarrow> int"
  round_no :: int
  selected :: "int option"
  winGoal :: int

text \<open>
  The exceptions of the core: \<open>splitTerritory\<close> throws
  \<open>Error('Not enough land for all players')\<close>; reading a property of \<open>undefined\<close> (a
  territory that does not exist, an array element picked out of range) throws a
  \<open>TypeError\<close>.
\<close>

datatype error = NotEnoughLand | TypeError

section \<open>Hex coordinate math (hex.ts)\<close>

definition hex_add :: "HexCoord \<Rightarrow> HexCoord \<Rightarrow> HexCoord" where
  "hex_add a b = (fst a + fst b, snd a + snd b)"

definition hex_subtract :: "HexCoord \<Rightarrow> HexCoord \<Rightarrow> HexCoord" where
  "hex_subtract a b = (fst a - fst b, snd a - snd b)"

text \<open>
  \<open>distance\<close> divides by two in floating point; on integer coordinates the sum of the
  three absolute values is even (lemma \<open>distance_sum_even\<close>), so integer division gives
  the same number.
\<close>

definition distance :: "HexCoord \<Rightarrow> HexCoord \<Rightarrow> int" where
  "distance a b =
     (let vec = hex_subtract a b
      in (\<bar>fst vec\<bar> + \<bar>fst vec + snd vec\<bar> + \<bar>snd vec\<bar>) div 2)"

definition HEX_DIRECTIONS :: "HexCoord list" where
  "HEX_DIRECTIONS = [(1, 0), (1, -1), (0, -1), (-1, 0), (-1, 1), (0, 1)]"

definition getNeighbors :: "HexCoord \<Rightarrow> HexCoord list" where
  "getNeighbors coord = map (\<lambda>dir. hex_add coord dir) HEX_DIRECTIONS"

definition areAdjacent :: "HexCoord \<Rightarrow> HexCoord \<Rightarrow> bool" where
  "areAdjacent a b \<longleftrightarrow> distance a b = 1"

section \<open>The seeded generator\<close>

text \<open>
  \<open>createSeededRandom\<close> returns a closure over a floating-point cell; each call gives a
  number in \<open>[0, 1)\<close> and moves the cell on. The model takes the sequence of numbers the
  closure will return as a parameter: \<open>g 0\<close> is the next draw, and the generator after
  the draw is the shifted sequence. How a seed determines the sequence (a sine in
  floating point) is not modelled.
\<close>

type_synonym rng = "nat \<Rightarrow> real"

definition draw :: "rng \<Rightarrow> real \<times> rng" where
  "draw g = (g 0, \<lambda>n. g (Suc n))"

section \<open>Connected components (map.ts)\<close>

text \<open>
  The flood fill keeps two string sets (\<open>Set\<close> of \<open>string\<close>) of keys \<open>"q,r"\<close>. A key names
  one coordinate pair, so \<open>hexSet\<close> is modelled by the list of hexes it was built from
  (membership is \<open>\<in> set hexSet\<close>) and \<open>visited\<close> by a set of hexes.

  \<open>visitNeighbors\<close> is the inner \<open>for (const neighbor of neighbors)\<close> loop: a neighbour
  that is in \<open>hexSet\<close> and not yet visited is marked and pushed on the queue.
\<close>

fun visitNeighbors ::
  "HexCoord list \<Rightarrow> HexCoord list \<Rightarrow> HexCoord list \<Rightarrow> HexCoord set
     \<Rightarrow> HexCoord list \<times> HexCoord set" where
  "visitNeighbors hexSet [] queue visited = (queue, visited)"
| "visitNeighbors hexSet (neighbor # rest) queue visited =
     (if neighbor \<notin> visited \<and> neighbor \<in> set hexSet
      then visitNeighbors hexSet rest (queue @ [neighbor]) (insert neighbor visited)
      else visitNeighbors hexSet rest queue visited)"

lemma visitNeighbors_mono:
  "visitNeighbors hexSet ns queue visited = (queue', visited') \<Longrightarrow>
     visited \<subseteq> visited' \<and> visited' \<subseteq> visited \<union> set hexSet"
  by (induction hexSet ns queue visited rule: visitNeighbors.induct)
     (auto split: if_splits)

lemma visitNeighbors_same:
  "visitNeighbors hexSet ns queue visited = (queue', visited') \<Longrightarrow>
     set hexSet - visited' = set hexSet - visited \<Longrightarrow> queue' = queue"
proof (induction hexSet ns queue visited rule: visitNeighbors.induct)
  case (1 hexSet queue visited)
  then show ?case by simp
next
  case (2 hexSet neighbor rest queue visited)
  show ?case
  proof (cases "neighbor \<notin> visited \<and> neighbor \<in> set hexSet")
    case True
    with 2(3) have "insert neighbor visited \<subseteq> visited'"
      using visitNeighbors_mono by fastforce
    with True 2(4) show ?thesis by auto
  next
    case False
    with 2 show ?thesis by auto
  qed
qed

text \<open>
  The \<open>while (queue.length > 0)\<close> loop, shared word for word by \<open>floodFill\<close> and
  \<open>getConnectedComponents\<close>: take the head of the queue, append it to the component,
  visit its six neighbours. It returns the component and the updated \<open>visited\<close> set.
\<close>

function bfs ::
  "HexCoord list \<Rightarrow> HexCoord list \<Rightarrow> HexCoord set \<Rightarrow> HexCoord list
     \<Rightarrow> HexCoord list \<times> HexCoord set" where
  "bfs hexSet [] visited component = (component, visited)"
| "bfs hexSet (cur # queue) visited component =
     (case visitNeighbors hexSet (getNeighbors cur) queue visited of
        (queue', visited') \<Rightarrow> bfs hexSet queue' visited' (component @ [cur]))"
  by pat_completeness auto
termination
proof (relation "measures [\<lambda>(hexSet, queue, visited, component). card (set hexSet - visited),
                           \<lambda>(hexSet, queue, visited, component). length queue]",
       goal_cases)
  case 1
  then show ?case by simp
next
  case (2 hexSet cur queue visited component queue' visited')
  then have vn: "visitNeighbors hexSet (getNeighbors cur) queue visited = (queue', visited')"
    by simp
  from visitNeighbors_mono[OF vn]
  have sub: "set hexSet - visited' \<subseteq> set hexSet - visited" by auto
  show ?case
  proof (cases "set hexSet - visited' = set hexSet - visited")
    case True
    with visitNeighbors_same[OF vn] show ?thesis by simp
  next
    case False
    with sub have "set hexSet - visited' \<subset> set hexSet - visited" by blast
    then have "card (set hexSet - visited') < card (set hexSet - visited)"
      by (intro psubset_card_mono) auto
    then show ?thesis by simp
  qed
qed

text \<open>The outer \<open>for (const hex of hexes)\<close> loop of \<open>getConnectedComponents\<close>.\<close>

fun componentsLoop ::
  "(HexCoord \<Rightarrow> bool) \<Rightarrow> HexCoord list \<Rightarrow> HexCoord list \<Rightarrow> HexCoord set
     \<Rightarrow> HexCoord list list \<Rightarrow> HexCoord list list" where
  "componentsLoop ownedBy hexSet [] visited components = components"
| "componentsLoop ownedBy hexSet (hex # rest) visited components =
     (if \<not> ownedBy hex then componentsLoop ownedBy hexSet rest visited components
      else if hex \<in> visited then componentsLoop ownedBy hexSet rest visited components
      else case bfs hexSet [hex] (insert hex visited) [] of
             (component, visited') \<Rightarrow>
               componentsLoop ownedBy hexSet rest visited'
                 (if length component > 0 then components @ [component] else components))"

definition getConnectedComponents ::
  "HexCoord list \<Rightarrow> (HexCoord \<Rightarrow> bool) \<Rightarrow> HexCoord list list" where
  "getConnectedComponents hexes ownedBy =
     componentsLoop ownedBy (filter ownedBy hexes) hexes {} []"

text \<open>
  \<open>components.reduce((largest, current) => current.length > largest.length ? current :
  largest)\<close> without an initial value starts from the first array and keeps the earliest
  array of greatest length. \<open>largestFrom\<close> returns the index of the array the fold
  returns: the callers compare arrays by reference (\<open>component !== largestComponent\<close>),
  and the index is what identifies one array among the components.
\<close>

fun largestFrom :: "nat \<Rightarrow> 'a list \<Rightarrow> nat \<Rightarrow> 'a list list \<Rightarrow> nat" where
  "largestFrom li largest i [] = li"
| "largestFrom li largest i (cur # rest) =
     (if length cur > length largest then largestFrom i cur (Suc i) rest
      else largestFrom li largest (Suc i) rest)"

definition largestIndex :: "'a list list \<Rightarrow> nat" where
  "largestIndex components = largestFrom 0 (hd components) 1 (tl components)"

section \<open>Map generator (map.ts)\<close>

definition floodFill ::
  "HexCoord \<Rightarrow> HexCoord list \<Rightarrow> HexCoord set \<Rightarrow> HexCoord list \<times> HexCoord set" where
  "floodFill start hexSet visited =
     (if start \<in> visited then ([], visited)
      else bfs hexSet [start] (insert start visited) [])"

fun largestLoop ::
  "HexCoord list \<Rightarrow> HexCoord list \<Rightarrow> HexCoord set \<Rightarrow> HexCoord list \<Rightarrow> HexCoord list" where
  "largestLoop hexSet [] visited largestComponent = largestComponent"
| "largestLoop hexSet (hex # rest) visited largestComponent =
     (if hex \<in> visited then largestLoop hexSet rest visited largestComponent
      else case floodFill hex hexSet visited of
             (component, visited') \<Rightarrow>
               largestLoop hexSet rest visited'
                 (if length component > length largestComponent then component
                  else largestComponent))"

definition getLargestComponent :: "HexCoord list \<Rightarrow> HexCoord list" where
  "getLargestComponent hexes =
     (if length hexes = 0 then [] else largestLoop hexes hexes {} [])"

text \<open>
  \<open>generateLandmass\<close>. The \<open>Map\<close> from keys to \<open>true\<close> is modelled by the list of its
  keys in insertion order (\<open>Array.from(landMap.keys())\<close>); only \<open>true\<close> is ever stored.
  Setting a key that is present leaves the order alone. Floating-point numbers are
  modelled by reals. \<open>config.landRatio\<close> is not read by the code.
\<close>

record MapConfig =
  width :: int
  height :: int
  landRatio :: real
  smoothingPasses :: int

definition setLand :: "HexCoord \<Rightarrow> HexCoord list \<Rightarrow> HexCoord list" where
  "setLand key landMap = (if key \<in> set landMap then landMap else landMap @ [key])"

text \<open>
  The body of the two nested loops over a blob's bounding square. With a radius of
  zero the quotient \<open>distance / blobRadius\<close> is \<open>NaN\<close> and the test
  \<open>probability > 0.3\<close> fails.
\<close>

definition blobCell ::
  "int \<Rightarrow> int \<Rightarrow> int \<Rightarrow> HexCoord \<Rightarrow> HexCoord list \<times> rng \<Rightarrow> HexCoord list \<times> rng" where
  "blobCell blobCenterQ blobCenterR blobRadius hex st =
     (case st of
        (landMap, g) \<Rightarrow>
          let dist = sqrt (real_of_int ((fst hex - blobCenterQ)\<^sup>2 + (snd hex - blobCenterR)\<^sup>2))
          in if dist \<le> real_of_int blobRadius then
               (case draw g of
                  (x, g') \<Rightarrow>
                    if blobRadius = 0 then (landMap, g')
                    else
                      let noise = (x - 1 / 2) * 2;
                          edgeFactor = 1 - dist / real_of_int blobRadius;
                          probability = edgeFactor + noise * (4 / 10)
                      in (if probability > 3 / 10 then setLand hex landMap else landMap, g'))
             else (landMap, g))"

fun blobLoop :: "nat \<Rightarrow> MapConfig \<Rightarrow> HexCoord list \<times> rng \<Rightarrow> HexCoord list \<times> rng" where
  "blobLoop 0 config st = st"
| "blobLoop (Suc n) config st =
     (case st of
        (landMap, g) \<Rightarrow>
          (case draw g of
             (x1, g1) \<Rightarrow>
               (case draw g1 of
                  (x2, g2) \<Rightarrow>
                    (case draw g2 of
                       (x3, g3) \<Rightarrow>
                         let blobCenterQ = \<lfloor>(x1 - 1 / 2) * real_of_int (width config) * (8 / 10)\<rfloor>;
                             blobCenterR = \<lfloor>(x2 - 1 / 2) * real_of_int (height config) * (8 / 10)\<rfloor>;
                             blobRadius = 3 + \<lfloor>x3 * 4\<rfloor>
                         in blobLoop n config
                              (fold (blobCell blobCenterQ blobCenterR blobRadius)
                                 (concat (map (\<lambda>q. map (Pair q)
                                                 [blobCenterR - blobRadius..blobCenterR + blobRadius])
                                              [blobCenterQ - blobRadius..blobCenterQ + blobRadius]))
                                 (landMap, g3))))))"

text \<open>
  The steps of one tendril. \<open>directions[k]\<close> with \<open>k\<close> out of range is \<open>undefined\<close>,
  and reading its \<open>q\<close> throws.
\<close>

fun tendrilSteps ::
  "nat \<Rightarrow> HexCoord \<Rightarrow> HexCoord list \<times> rng \<Rightarrow> error + HexCoord list \<times> rng" where
  "tendrilSteps 0 pos st = Inr st"
| "tendrilSteps (Suc n) pos st =
     (case st of
        (landMap, g) \<Rightarrow>
          (case draw g of
             (x1, g1) \<Rightarrow>
               let k = \<lfloor>x1 * 6\<rfloor>
               in if 0 \<le> k \<and> k < 6 then
                    let pos' = hex_add pos (HEX_DIRECTIONS ! nat k)
                    in (case draw g1 of
                          (x2, g2) \<Rightarrow>
                            tendrilSteps n pos'
                              (if x2 > 3 / 10 then setLand pos' landMap else landMap, g2))
                  else Inl TypeError))"

fun tendrilLoop :: "nat \<Rightarrow> HexCoord list \<times> rng \<Rightarrow> error + HexCoord list \<times> rng" where
  "tendrilLoop 0 st = Inr st"
| "tendrilLoop (Suc n) st =
     (case st of
        (landMap, g) \<Rightarrow>
          if length landMap = 0 then tendrilLoop n (landMap, g)
          else
            (case draw g of
               (x1, g1) \<Rightarrow>
                 let k = \<lfloor>x1 * real (length landMap)\<rfloor>
                 in if 0 \<le> k \<and> k < int (length landMap) then
                      (case draw g1 of
                         (x2, g2) \<Rightarrow>
                           (case tendrilSteps (nat (2 + \<lfloor>x2 * 4\<rfloor>)) (landMap ! nat k)
                                   (landMap, g2) of
                              Inl e \<Rightarrow> Inl e
                            | Inr st' \<Rightarrow> tendrilLoop n st'))
                    else Inl TypeError))"

text \<open>
  One smoothing pass. Every key of the map is land, so \<open>currentIsLand\<close> is always
  true and the branch for other hexes is never taken; it is kept as in the source.
\<close>

definition smoothPass :: "HexCoord list \<Rightarrow> HexCoord list" where
  "smoothPass landMap =
     filter (\<lambda>hex.
        let landNeighbors = length (filter (\<lambda>neighbor. neighbor \<in> set landMap)
                                           (getNeighbors hex));
            ratio = real landNeighbors / 6;
            currentIsLand = (hex \<in> set landMap)
        in if currentIsLand then ratio > 2 / 10 else ratio > 6 / 10)
       landMap"

text \<open>What the blob, tendril and smoothing stages leave as land, before the largest
  component is extracted.\<close>

definition landStages :: "MapConfig \<Rightarrow> rng \<Rightarrow> error + HexCoord list" where
  "landStages config g =
     (case draw g of
        (x1, g1) \<Rightarrow>
          (case blobLoop (nat (2 + \<lfloor>x1 * 3\<rfloor>)) config ([], g1) of
             (landMap, g2) \<Rightarrow>
               (case draw g2 of
                  (x2, g3) \<Rightarrow>
                    (case tendrilLoop (nat (2 + \<lfloor>x2 * 4\<rfloor>)) (landMap, g3) of
                       Inl e \<Rightarrow> Inl e
                     | Inr (landMap', g4) \<Rightarrow>
                         Inr ((smoothPass ^^ nat (min 2 (smoothingPasses config))) landMap')))))"

definition generateLandmass :: "MapConfig \<Rightarrow> rng \<Rightarrow> error + HexCoord list" where
  "generateLandmass config g =
     (case landStages config g of
        Inl e \<Rightarrow> Inl e
      | Inr landHexes \<Rightarrow> Inr (getLargestComponent landHexes))"

definition generateCells :: "HexCoord list \<Rightarrow> Cell list" where
  "generateCells landHexes =
     map (\<lambda>(hex, index).
            \<lparr>cell_id = int index, cell_q = fst hex, cell_r = snd hex,
             owner = 0, units = 1, land = True\<rparr>)
         (zip landHexes [0..<length landHexes])"

section \<open>Rules engine (rules.ts)\<close>

definition canReinforce :: "'a GameState_scheme \<Rightarrow> int \<Rightarrow> bool" where
  "canReinforce state cellId =
     (if phase state \<noteq> Reinforce \<or> reinfLeft state \<le> 0 then False
      else case find (\<lambda>c. cell_id c = cellId) (cells state) of
             None \<Rightarrow> False
           | Some cell \<Rightarrow>
               if \<not> land cell \<or> owner cell \<noteq> current state then False
               else units cell < 8)"

definition reinforce :: "'a GameState_scheme \<Rightarrow> int \<Rightarrow> 'a GameState_scheme" where
  "reinforce state cellId =
     (if \<not> canReinforce state cellId then state
      else
        let newState = state
              \<lparr>cells := map (\<lambda>cell. if cell_id cell = cellId
                                     then cell\<lparr>units := Math_min 8 (units cell + 1)\<rparr>
                                     else cell) (cells state),
               reinfLeft := reinfLeft state - 1\<rparr>
        in if reinfLeft newState \<le> 0 then newState\<lparr>phase := Attack\<rparr> else newState)"

definition canAttack :: "'a GameState_scheme \<Rightarrow> int \<Rightarrow> int \<Rightarrow> bool" where
  "canAttack state fromId toId =
     (if phase state \<noteq> Attack \<or> actionsLeft state \<le> 0 then False
      else case (find (\<lambda>c. cell_id c = fromId) (cells state),
                 find (\<lambda>c. cell_id c = toId) (cells state)) of
             (Some fromCell, Some toCell) \<Rightarrow>
               if \<not> land fromCell \<or> \<not> land toCell then False
               else if owner fromCell \<noteq> current state \<or> owner toCell = current state
                 then False
               else if units fromCell < 1 then False
               else areAdjacent (cell_q fromCell, cell_r fromCell)
                                (cell_q toCell, cell_r toCell)
           | _ \<Rightarrow> False)"

definition createEmptyDiceRoll :: DiceRoll where
  "createEmptyDiceRoll =
     \<lparr>attacker = [], defender = [], attackerTotal = 0, defenderTotal = 0,
      attackerWins = False, attackerId = 0, defenderId = 0\<rparr>"

text \<open>
  One of the two \<open>for\<close> loops of \<open>rollDice\<close>: \<open>n\<close> dice, each
  \<open>Math.floor(rng() * 6) + 1\<close>, where \<open>n\<close> is the number of times the loop runs for
  the count it is given.
\<close>

fun rollMany :: "nat \<Rightarrow> rng \<Rightarrow> int list \<times> rng" where
  "rollMany 0 g = ([], g)"
| "rollMany (Suc n) g =
     (let (x, g1) = draw g;
          (rest, g2) = rollMany n g1
      in ((\<lfloor>x * 6\<rfloor> + 1) # rest, g2))"

definition rollDice ::
  "rng \<Rightarrow> number \<Rightarrow> number \<Rightarrow> PlayerId \<Rightarrow> PlayerId \<Rightarrow> DiceRoll \<times> rng" where
  "rollDice g attackerCount defenderCount attId defId =
     (let (attackerRolls, g1) = rollMany (loopCount attackerCount) g;
          (defenderRolls, g2) = rollMany (loopCount defenderCount) g1;
          attTotal = sum_list attackerRolls;
          defTotal = sum_list defenderRolls
      in (\<lparr>attacker = attackerRolls, defender = defenderRolls,
           attackerTotal = attTotal, defenderTotal = defTotal,
           attackerWins = (attTotal > defTotal),
           attackerId = attId, defenderId = defId\<rparr>, g2))"

definition detectExclaves :: "'a GameState_scheme \<Rightarrow> PlayerId \<Rightarrow> HexCoord list list" where
  "detectExclaves state playerId =
     (let playerCells = filter (\<lambda>c. land c \<and> owner c = playerId) (cells state);
          playerHexes = map (\<lambda>c. (cell_q c, cell_r c)) playerCells
      in if length playerHexes = 0 then []
         else
           let components = getConnectedComponents playerHexes
                 (\<lambda>hex. list_ex (\<lambda>ph. fst ph = fst hex \<and> snd ph = snd hex) playerHexes)
           in if length components \<le> 1 then []
              else
                let largestComponent = largestIndex components
                in map snd (filter (\<lambda>(i, component). i \<noteq> largestComponent)
                                   (zip [0..<length components] components)))"

text \<open>
  \<open>updateExclaveScores\<close> writes \<open>state.scores[playerId]\<close> for each player of
  \<open>state.players\<close> in turn; \<open>detectExclaves\<close> reads the cells only, so every iteration
  sees the same board.
\<close>

definition updateExclaveScores :: "'a GameState_scheme \<Rightarrow> 'a GameState_scheme" where
  "updateExclaveScores state =
     state\<lparr>scores := fold (\<lambda>playerId sc.
                               sc(playerId := int (length (detectExclaves state playerId))))
                         (players state) (scores state)\<rparr>"

text \<open>
  \<open>attack\<close> returns the new state and the dice; the model also returns the generator
  after the draws. \<open>canAttack\<close> has found both cells, so the last branch of the
  \<open>case\<close> (a cell missing) is never taken; the source asserts it with \<open>!\<close>.
\<close>

definition attack ::
  "rng \<Rightarrow> 'a GameState_scheme \<Rightarrow> int \<Rightarrow> int \<Rightarrow> 'a GameState_scheme \<times> DiceRoll \<times> rng" where
  "attack g state fromId toId =
     (if \<not> canAttack state fromId toId then (state, createEmptyDiceRoll, g)
      else case (find (\<lambda>c. cell_id c = fromId) (cells state),
                 find (\<lambda>c. cell_id c = toId) (cells state)) of
        (Some fromCell, Some toCell) \<Rightarrow>
          if units toCell = 0 then
            let unitsToMove = (if units fromCell \<ge> 2 then units fromCell - 1
                               else units fromCell);
                unitsRemaining = (if units fromCell \<ge> 2 then 1 else 0);
                newState = state
                  \<lparr>cells := map (\<lambda>cell.
                       if cell_id cell = fromId then cell\<lparr>units := unitsRemaining\<rparr>
                       else if cell_id cell = toId
                         then cell\<lparr>owner := current state, units := unitsToMove\<rparr>
                       else cell) (cells state)\<rparr>
            in (newState, createEmptyDiceRoll, g)
          else
            (case rollDice g (units fromCell) (units toCell) (current state) (owner toCell) of
               (dice, g') \<Rightarrow>
                 let newCells =
                       (if attackerWins dice then
                          let unitsToMove = (if units fromCell \<ge> 2 then units fromCell - 1
                                             else units fromCell);
                              unitsRemaining = (if units fromCell \<ge> 2 then 1 else 0)
                          in map (\<lambda>cell.
                               if cell_id cell = fromId then cell\<lparr>units := unitsRemaining\<rparr>
                               else if cell_id cell = toId
                                 then cell\<lparr>owner := current state, units := unitsToMove\<rparr>
                               else cell) (cells state)
                        else
                          map (\<lambda>cell.
                               if cell_id cell = fromId then cell\<lparr>owner := owner toCell\<rparr>
                               else if cell_id cell = toId \<and> units toCell > 0
                                 then cell\<lparr>units := Math_min 8 (units toCell + 1)\<rparr>
                               else cell) (cells state));
                     newState = state\<lparr>cells := newCells,
                                      actionsLeft := actionsLeft state - 1\<rparr>
                 in (updateExclaveScores newState, dice, g'))
      | _ \<Rightarrow> (state, createEmptyDiceRoll, g))"

definition canMove :: "'a GameState_scheme \<Rightarrow> int \<Rightarrow> int \<Rightarrow> bool" where
  "canMove state fromId toId =
     (if phase state \<noteq> Attack \<or> actionsLeft state \<le> 0 then False
      else case (find (\<lambda>c. cell_id c = fromId) (cells state),
                 find (\<lambda>c. cell_id c = toId) (cells state)) of
             (Some fromCell, Some toCell) \<Rightarrow>
               if \<not> land fromCell \<or> \<not> land toCell then False
               else if owner fromCell \<noteq> current state \<or> owner toCell \<noteq> current state
                 then False
               else if units fromCell \<le> 1 then False
               else True
           | _ \<Rightarrow> False)"

text \<open>
  \<open>move\<close> clamps the requested count with \<open>Math.min\<close> and returns the state when the
  result is \<open><= 0\<close>. That test is false of \<open>NaN\<close>: with a count or a cell whose number
  is \<open>NaN\<close> the function goes on and writes \<open>units - NaN\<close> and \<open>units + NaN\<close>. The last
  branch of the inner \<open>case\<close> is the count \<open>-Infinity\<close>, which passes the test
  \<open>finalMove <= 0\<close> (\<open>Math_min_count\<close> never gives \<open>Infinity\<close>).
\<close>

definition move ::
  "'a GameState_scheme \<Rightarrow> int \<Rightarrow> int \<Rightarrow> unitCount \<Rightarrow> 'a GameState_scheme" where
  "move state fromId toId unitCount =
     (if \<not> canMove state fromId toId then state
      else case (find (\<lambda>c. cell_id c = fromId) (cells state),
                 find (\<lambda>c. cell_id c = toId) (cells state)) of
             (Some fromCell, Some toCell) \<Rightarrow>
               let maxMove = units fromCell - 1;
                   actualMove = Math_min_count unitCount maxMove;
                   maxDestination = 8 - units toCell
               in (case Math_min_count actualMove maxDestination of
                     Count finalMove \<Rightarrow>
                       if finalMove \<le> 0 then state
                       else state
                         \<lparr>cells := map (\<lambda>cell.
                              if cell_id cell = fromId
                                then cell\<lparr>units := units cell - finalMove\<rparr>
                              else if cell_id cell = toId
                                then cell\<lparr>units := units cell + finalMove\<rparr>
                              else cell) (cells state),
                          actionsLeft := actionsLeft state - 1\<rparr>
                   | _ \<Rightarrow> state)
           | _ \<Rightarrow> state)"

definition canEndTurn :: "'a GameState_scheme \<Rightarrow> bool" where
  "canEndTurn state \<longleftrightarrow> reinfLeft state = 0 \<or> actionsLeft state = 0"

definition getPlayerTerritoryCount :: "'a GameState_scheme \<Rightarrow> PlayerId \<Rightarrow> int" where
  "getPlayerTerritoryCount state playerId =
     int (length (filter (\<lambda>c. land c \<and> owner c = playerId) (cells state)))"

text \<open>\<open>Array.prototype.indexOf\<close>: the first index of the element, or \<open>-1\<close>.\<close>

fun indexOf :: "'a list \<Rightarrow> 'a \<Rightarrow> int" where
  "indexOf [] x = -1"
| "indexOf (y # ys) x =
     (if y = x then 0 else (let i = indexOf ys x in if i < 0 then -1 else i + 1))"

text \<open>
  \<open>endTurn\<close> reads \<open>state.players[nextPlayerIndex]\<close>. With an empty \<open>players\<close> array the
  index is \<open>NaN\<close> and the read gives \<open>undefined\<close>, which is not a \<open>PlayerId\<close>; the
  reducer only ever builds \<open>[0, 1]\<close> or \<open>[0, 1, 2]\<close>. The theorems about the player
  \<open>endTurn\<close> selects assume \<open>players state \<noteq> []\<close>, where the index is in range.
\<close>

definition endTurn :: "'a GameState_scheme \<Rightarrow> 'a GameState_scheme" where
  "endTurn state =
     (if \<not> canEndTurn state then state
      else
        let nextPlayerIndex =
              (indexOf (players state) (current state) + 1) mod int (length (players state));
            nextPlayer = players state ! nat nextPlayerIndex;
            newState = (if nextPlayer = players state ! 0
                        then state\<lparr>round_no := round_no state + 1\<rparr> else state);
            nextPlayerHexCount = getPlayerTerritoryCount state nextPlayer;
            reinforcements = max 1 (nextPlayerHexCount div 6)
        in newState\<lparr>current := nextPlayer, phase := Reinforce,
                    reinfLeft := reinforcements, actionsLeft := 5, selected := None\<rparr>)"

section \<open>Territory splitter (split.ts)\<close>

text \<open>\<open>SplitConfig.playerCount\<close> has the type \<open>2 | 3\<close>.\<close>

datatype PlayerCount = Two | Three

fun countOf :: "PlayerCount \<Rightarrow> int" where
  "countOf Two = 2"
| "countOf Three = 3"

record SplitConfig =
  playerCount :: PlayerCount
  minTerritorySize :: int

text \<open>
  The index pairs \<open>i < j\<close> and triples \<open>i < j < k\<close> of the nested \<open>for\<close> loops, in the
  order the loops visit them.
\<close>

fun pairsOf :: "'a list \<Rightarrow> ('a \<times> 'a) list" where
  "pairsOf [] = []"
| "pairsOf (x # xs) = map (Pair x) xs @ pairsOf xs"

fun triplesOf :: "'a list \<Rightarrow> ('a \<times> 'a \<times> 'a) list" where
  "triplesOf [] = []"
| "triplesOf (x # xs) = map (\<lambda>(y, z). (x, y, z)) (pairsOf xs) @ triplesOf xs"

definition findFarthestPair :: "HexCoord list \<Rightarrow> HexCoord list" where
  "findFarthestPair hexes =
     snd (fold (\<lambda>(hex1, hex2) (maxDistance, bestPair).
                  let d = distance hex1 hex2
                  in if d > maxDistance then (d, [hex1, hex2]) else (maxDistance, bestPair))
               (pairsOf hexes) (-1, []))"

definition findFarthestTriple :: "HexCoord list \<Rightarrow> HexCoord list" where
  "findFarthestTriple hexes =
     snd (fold (\<lambda>(hex1, hex2, hex3) (maxMinDistance, bestTriple).
                  let d12 = distance hex1 hex2;
                      d13 = distance hex1 hex3;
                      d23 = distance hex2 hex3;
                      minDistance = min d12 (min d13 d23)
                  in if minDistance > maxMinDistance
                     then (minDistance, [hex1, hex2, hex3])
                     else (maxMinDistance, bestTriple))
               (triplesOf hexes) (-1, []))"

definition generateSeedCandidates :: "HexCoord list \<Rightarrow> PlayerCount \<Rightarrow> HexCoord list" where
  "generateSeedCandidates hexes pc =
     (if pc = Two then findFarthestPair hexes else findFarthestTriple hexes)"

text \<open>
  \<open>minDistance\<close> starts at \<open>Infinity\<close>, written \<open>None\<close>. With two seeds or more there
  is a pair, so the minimum is a number when the score is computed.
\<close>

definition evaluateSeedPlacement :: "HexCoord list \<Rightarrow> int" where
  "evaluateSeedPlacement seeds =
     (if length seeds < 2 then 0
      else case fold (\<lambda>(hex1, hex2) (totalDistance, minDistance).
                        let d = distance hex1 hex2
                        in (totalDistance + d,
                            (case minDistance of None \<Rightarrow> Some d | Some m \<Rightarrow> Some (min m d))))
                     (pairsOf seeds) (0, None) of
             (totalDistance, Some minDistance) \<Rightarrow> minDistance * 2 + totalDistance
           | (totalDistance, None) \<Rightarrow> 0)"

fun seedAttempts ::
  "nat \<Rightarrow> HexCoord list \<Rightarrow> PlayerCount \<Rightarrow> HexCoord list \<Rightarrow> int \<Rightarrow> HexCoord list" where
  "seedAttempts 0 hexes pc bestSeeds bestScore = bestSeeds"
| "seedAttempts (Suc n) hexes pc bestSeeds bestScore =
     (let seeds = generateSeedCandidates hexes pc;
          score = evaluateSeedPlacement seeds
      in if score > bestScore then seedAttempts n hexes pc seeds score
         else seedAttempts n hexes pc bestSeeds bestScore)"

definition findOptimalSeeds :: "HexCoord list \<Rightarrow> PlayerCount \<Rightarrow> HexCoord list" where
  "findOptimalSeeds hexes pc = seedAttempts 50 hexes pc [] (-1)"

text \<open>
  The inner loop of \<open>voronoiSplit\<close> over the seeds. The generator is called only when
  the distance equals the current minimum (the \<open>||\<close> and \<open>&&\<close> short-circuit).
\<close>

fun closestSeedLoop ::
  "HexCoord \<Rightarrow> HexCoord list \<Rightarrow> nat \<Rightarrow> nat \<Rightarrow> int option \<Rightarrow> rng \<Rightarrow> nat \<times> rng" where
  "closestSeedLoop hex [] i closestSeed minDistance g = (closestSeed, g)"
| "closestSeedLoop hex (seed # rest) i closestSeed minDistance g =
     (let d = distance seed hex
      in case minDistance of
           None \<Rightarrow> closestSeedLoop hex rest (Suc i) i (Some d) g
         | Some m \<Rightarrow>
             if d < m then closestSeedLoop hex rest (Suc i) i (Some d) g
             else if d = m then
               (case draw g of
                  (x, g') \<Rightarrow>
                    if x < 1 / 2 then closestSeedLoop hex rest (Suc i) i (Some d) g'
                    else closestSeedLoop hex rest (Suc i) closestSeed minDistance g')
             else closestSeedLoop hex rest (Suc i) closestSeed minDistance g)"

text \<open>
  The territories are a \<open>Map\<close> from player id to an array of hexes, with the keys
  \<open>0, 1, ...\<close> inserted in that order: a list of hex lists, indexed by the player id.
\<close>

fun voronoiLoop ::
  "HexCoord list \<Rightarrow> HexCoord list \<Rightarrow> HexCoord list list \<Rightarrow> rng
     \<Rightarrow> error + (HexCoord list list \<times> rng)" where
  "voronoiLoop [] seeds territories g = Inr (territories, g)"
| "voronoiLoop (hex # rest) seeds territories g =
     (case closestSeedLoop hex seeds 0 0 None g of
        (closestSeed, g') \<Rightarrow>
          if closestSeed < length territories
          then voronoiLoop rest seeds
                 (territories[closestSeed := territories ! closestSeed @ [hex]]) g'
          else Inl TypeError)"

definition voronoiSplit ::
  "HexCoord list \<Rightarrow> HexCoord list \<Rightarrow> rng \<Rightarrow> error + (HexCoord list list \<times> rng)" where
  "voronoiSplit hexes seeds g = voronoiLoop hexes seeds (replicate (length seeds) []) g"

definition findBorderHexes :: "HexCoord list \<Rightarrow> HexCoord list list \<Rightarrow> HexCoord list" where
  "findBorderHexes territory allTerritories =
     filter (\<lambda>hex. list_ex (\<lambda>neighbor. neighbor \<in> set (concat allTerritories) \<and>
                                        neighbor \<notin> set territory)
                            (getNeighbors hex))
            territory"

text \<open>
  \<open>candidates[Math.floor(rng() * candidates.length)]\<close>: an index outside the array
  reads \<open>undefined\<close>, which the caller treats as no owner.
\<close>

definition findBestNewOwner ::
  "HexCoord \<Rightarrow> HexCoord list list \<Rightarrow> int \<Rightarrow> rng \<Rightarrow> nat option \<times> rng" where
  "findBestNewOwner hex territories targetSize g =
     (let neighbors = getNeighbors hex;
          candidates = filter (\<lambda>playerId.
                         \<not> int (length (territories ! playerId)) \<ge> targetSize \<and>
                         list_ex (\<lambda>neighbor. neighbor \<in> set (territories ! playerId)) neighbors)
                       [0..<length territories]
      in if length candidates = 0 then (None, g)
         else case draw g of
                (x, g') \<Rightarrow>
                  let k = \<lfloor>x * real (length candidates)\<rfloor>
                  in (if 0 \<le> k \<and> k < int (length candidates)
                      then Some (candidates ! nat k) else None, g'))"

definition moveHexBetweenTerritories ::
  "HexCoord \<Rightarrow> nat \<Rightarrow> nat \<Rightarrow> HexCoord list list \<Rightarrow> HexCoord list list" where
  "moveHexBetweenTerritories hex fromP toP territories =
     (if hex \<in> set (territories ! fromP)
      then let t1 = territories[fromP := remove1 hex (territories ! fromP)]
           in t1[toP := t1 ! toP @ [hex]]
      else territories)"

fun donateLoop ::
  "HexCoord list \<Rightarrow> nat \<Rightarrow> int \<Rightarrow> HexCoord list list \<Rightarrow> bool \<Rightarrow> rng
     \<Rightarrow> HexCoord list list \<times> bool \<times> rng" where
  "donateLoop [] playerId targetSize balanced changed g = (balanced, changed, g)"
| "donateLoop (hexToMove # rest) playerId targetSize balanced changed g =
     (case findBestNewOwner hexToMove balanced targetSize g of
        (Some newOwner, g') \<Rightarrow>
          if newOwner \<noteq> playerId
          then donateLoop rest playerId targetSize
                 (moveHexBetweenTerritories hexToMove playerId newOwner balanced) True g'
          else donateLoop rest playerId targetSize balanced changed g'
      | (None, g') \<Rightarrow> donateLoop rest playerId targetSize balanced changed g')"

fun balancePlayers ::
  "nat list \<Rightarrow> int \<Rightarrow> HexCoord list list \<Rightarrow> bool \<Rightarrow> rng
     \<Rightarrow> HexCoord list list \<times> bool \<times> rng" where
  "balancePlayers [] targetSize balanced changed g = (balanced, changed, g)"
| "balancePlayers (playerId # rest) targetSize balanced changed g =
     (let territory = balanced ! playerId
      in if int (length territory) > targetSize then
           let excess = int (length territory) - targetSize;
               borderHexes = findBorderHexes territory balanced
           in case donateLoop (take (nat (min excess (int (length borderHexes)))) borderHexes)
                     playerId targetSize balanced changed g of
                (balanced', changed', g') \<Rightarrow>
                  balancePlayers rest targetSize balanced' changed' g'
         else balancePlayers rest targetSize balanced changed g)"

fun balanceIterations ::
  "nat \<Rightarrow> int \<Rightarrow> HexCoord list list \<Rightarrow> rng \<Rightarrow> HexCoord list list \<times> rng" where
  "balanceIterations 0 targetSize balanced g = (balanced, g)"
| "balanceIterations (Suc n) targetSize balanced g =
     (case balancePlayers [0..<length balanced] targetSize balanced False g of
        (balanced', changed, g') \<Rightarrow>
          if \<not> changed then (balanced', g')
          else balanceIterations n targetSize balanced' g')"

definition balanceTerritories ::
  "HexCoord list list \<Rightarrow> SplitConfig \<Rightarrow> rng \<Rightarrow> HexCoord list list \<times> rng" where
  "balanceTerritories territories config g =
     (let targetSize = int (sum_list (map length territories)) div countOf (playerCount config)
      in balanceIterations 10 targetSize territories g)"

text \<open>
  \<open>findNearestTerritoryOwner\<close> scans the territories in key order and each territory in
  array order, and keeps the first hex at the least distance.
\<close>

definition findNearestTerritoryOwner :: "HexCoord \<Rightarrow> HexCoord list list \<Rightarrow> nat option" where
  "findNearestTerritoryOwner hex territories =
     fst (fold (\<lambda>(playerId, territoryHex) (nearestOwner, minDistance).
                  let d = distance hex territoryHex
                  in case minDistance of
                       None \<Rightarrow> (Some playerId, Some d)
                     | Some m \<Rightarrow> if d < m then (Some playerId, Some d)
                                 else (nearestOwner, minDistance))
               (concat (map (\<lambda>playerId. map (Pair playerId) (territories ! playerId))
                            [0..<length territories]))
               (None, None))"

definition reduceLargest :: "'a list list \<Rightarrow> 'a list" where
  "reduceLargest components =
     foldl (\<lambda>largest cur. if length cur > length largest then cur else largest)
           (hd components) (tl components)"

text \<open>
  \<open>enforceContiguity\<close> builds the map \<open>contiguous\<close> one territory at a time; when the
  strays of a territory look for their nearest owner, \<open>contiguous\<close> holds the
  territories handled so far, this one included.
\<close>

fun enforceLoop :: "HexCoord list list \<Rightarrow> HexCoord list list \<Rightarrow> HexCoord list list" where
  "enforceLoop [] contiguous = contiguous"
| "enforceLoop (territory # rest) contiguous =
     (let components = getConnectedComponents territory (\<lambda>_. True)
      in if length components = 0 then enforceLoop rest (contiguous @ [[]])
         else
           let largestComponent = reduceLargest components;
               strays = filter (\<lambda>hex. \<not> list_ex (\<lambda>c. fst c = fst hex \<and> snd c = snd hex)
                                                  largestComponent) territory
           in enforceLoop rest
                (fold (\<lambda>stray cont.
                         case findNearestTerritoryOwner stray cont of
                           Some bestOwner \<Rightarrow> cont[bestOwner := cont ! bestOwner @ [stray]]
                         | None \<Rightarrow> cont)
                      strays (contiguous @ [largestComponent])))"

definition enforceContiguity :: "HexCoord list list \<Rightarrow> HexCoord list list" where
  "enforceContiguity territories = enforceLoop territories []"

text \<open>
  \<open>const cell = result.find(...); if (cell) { cell.field = ... }\<close> changes the first
  cell that satisfies the test, and nothing when there is none.
\<close>

fun updateFirst :: "('a \<Rightarrow> bool) \<Rightarrow> ('a \<Rightarrow> 'a) \<Rightarrow> 'a list \<Rightarrow> 'a list" where
  "updateFirst P f [] = []"
| "updateFirst P f (x # xs) = (if P x then f x # xs else x # updateFirst P f xs)"

definition atHex :: "HexCoord \<Rightarrow> Cell \<Rightarrow> bool" where
  "atHex hex c \<longleftrightarrow> cell_q c = fst hex \<and> cell_r c = snd hex"

definition claimHexes :: "PlayerId \<Rightarrow> HexCoord list \<Rightarrow> Cell list \<Rightarrow> Cell list" where
  "claimHexes playerId territory result =
     fold (\<lambda>hex res. updateFirst (atHex hex) (\<lambda>c. c\<lparr>owner := playerId, units := 0\<rparr>) res)
          territory result"

text \<open>
  The \<open>while (remainingUnits > 0)\<close> loop. It ends only if the generator keeps picking
  hexes that still have room, so the model is a partial function: \<open>None\<close> stands for a
  loop that runs forever.
\<close>

partial_function (option) distributeUnits ::
  "int \<Rightarrow> HexCoord list \<Rightarrow> Cell list \<Rightarrow> rng \<Rightarrow> (error + Cell list \<times> rng) option" where
  "distributeUnits remainingUnits territory result g =
     (if remainingUnits > 0 then
        (case draw g of
           (x, g') \<Rightarrow>
             let k = \<lfloor>x * real (length territory)\<rfloor>
             in if 0 \<le> k \<and> k < int (length territory) then
                  (case find (atHex (territory ! nat k)) result of
                     Some cell \<Rightarrow>
                       if units cell < 8
                       then distributeUnits (remainingUnits - 1) territory
                              (updateFirst (atHex (territory ! nat k))
                                 (\<lambda>c. c\<lparr>units := units c + 1\<rparr>) result) g'
                       else distributeUnits remainingUnits territory result g'
                   | None \<Rightarrow> distributeUnits remainingUnits territory result g')
                else Some (Inl TypeError))
      else Some (Inr (result, g)))"

declare distributeUnits.simps [code]

definition ensureOneUnit :: "HexCoord list \<Rightarrow> Cell list \<Rightarrow> Cell list" where
  "ensureOneUnit territory result =
     fold (\<lambda>hex res. updateFirst (atHex hex)
                        (\<lambda>c. if units c = 0 then c\<lparr>units := 1\<rparr> else c) res)
          territory result"

fun assignLoop ::
  "PlayerId \<Rightarrow> HexCoord list list \<Rightarrow> Cell list \<Rightarrow> rng
     \<Rightarrow> (error + Cell list \<times> rng) option" where
  "assignLoop playerId [] result g = Some (Inr (result, g))"
| "assignLoop playerId (territory # rest) result g =
     (case distributeUnits (int (length territory) * 4) territory
             (claimHexes playerId territory result) g of
        None \<Rightarrow> None
      | Some (Inl e) \<Rightarrow> Some (Inl e)
      | Some (Inr (result', g')) \<Rightarrow>
          assignLoop (Suc playerId) rest (ensureOneUnit territory result') g')"

definition assignPlayersToTerritories ::
  "Cell list \<Rightarrow> HexCoord list list \<Rightarrow> rng \<Rightarrow> (error + Cell list \<times> rng) option" where
  "assignPlayersToTerritories cells0 territories g = assignLoop 0 territories cells0 g"

definition splitTerritory ::
  "Cell list \<Rightarrow> SplitConfig \<Rightarrow> rng \<Rightarrow> (error + Cell list \<times> rng) option" where
  "splitTerritory cells0 config g =
     (let landHexes = map (\<lambda>c. (cell_q c, cell_r c)) (filter land cells0)
      in if int (length landHexes) < minTerritorySize config * countOf (playerCount config)
         then Some (Inl NotEnoughLand)
         else
           let seeds = findOptimalSeeds landHexes (playerCount config)
           in case voronoiSplit landHexes seeds g of
                Inl e \<Rightarrow> Some (Inl e)
              | Inr (territories, g1) \<Rightarrow>
                  (case balanceTerritories territories config g1 of
                     (balancedTerritories, g2) \<Rightarrow>
                       assignPlayersToTerritories cells0
                         (enforceContiguity balancedTerritories) g2))"

section \<open>New game (state.tsx)\<close>

text \<open>
  The \<open>NEW_GAME\<close> case of the reducer: generate the cells, split them with
  \<open>minTerritorySize: 8\<close>, and build the first state. \<open>landHexes\<close> is what
  \<open>generateLandmass\<close> returned and \<open>g\<close> is the splitter's generator.
\<close>

definition newGame ::
  "PlayerCount \<Rightarrow> int \<Rightarrow> HexCoord list \<Rightarrow> rng \<Rightarrow> (error + GameState) option" where
  "newGame pc goal landHexes g =
     (let cells0 = generateCells landHexes
      in case splitTerritory cells0 \<lparr>playerCount = pc, minTerritorySize = 8\<rparr> g of
           None \<Rightarrow> None
         | Some (Inl e) \<Rightarrow> Some (Inl e)
         | Some (Inr (splitCells, g')) \<Rightarrow>
             Some (Inr \<lparr>cells = splitCells,
                        players = (if pc = Three then [0, 1, 2] else [0, 1]),
                        current = 0, phase = Reinforce,
                        reinfLeft = max 1 (int (length (filter (\<lambda>c. owner c = 0) splitCells))
                                             div 6),
                        actionsLeft = 5, scores = (\<lambda>_. 0), round_no = 1,
                        selected = None,
                        winGoal = (if goal = 0 then 10 else goal)\<rparr>))"

section \<open>Reference notions the claims are stated with\<close>

text \<open>
  The player after \<open>p\<close> in turn order, in the words of the specification: the element
  that follows \<open>p\<close> in the list, and the first element when \<open>p\<close> is the last one (or
  is not in the list at all).
\<close>

definition nextInOrder :: "'a list \<Rightarrow> 'a \<Rightarrow> 'a" where
  "nextInOrder ps p =
     (case dropWhile (\<lambda>x. x \<noteq> p) ps of
        _ # y # _ \<Rightarrow> y
      | _ \<Rightarrow> hd ps)"

text \<open>
  Connectivity under 6-neighbour adjacency. Two hexes of \<open>S\<close> are linked when one is
  a neighbour of the other; \<open>S\<close> is connected when every hex of \<open>S\<close> can be reached
  from every other through links inside \<open>S\<close>; it forms exactly one component when it
  is connected and not empty. The components of \<open>S\<close> are the classes of mutually
  reachable hexes.
\<close>

definition hexAdj :: "HexCoord set \<Rightarrow> (HexCoord \<times> HexCoord) set" where
  "hexAdj S = {(a, b). a \<in> S \<and> b \<in> S \<and> b \<in> set (getNeighbors a)}"

definition connectedHexes :: "HexCoord set \<Rightarrow> bool" where
  "connectedHexes S \<longleftrightarrow> S \<times> S \<subseteq> (hexAdj S)\<^sup>*"

definition oneComponent :: "HexCoord set \<Rightarrow> bool" where
  "oneComponent S \<longleftrightarrow> S \<noteq> {} \<and> connectedHexes S"

definition componentsOf :: "HexCoord set \<Rightarrow> HexCoord set set" where
  "componentsOf S = (\<lambda>a. {b. (a, b) \<in> (hexAdj S)\<^sup>*}) ` S"

text \<open>The land hexes a player owns, and the number of exclaves of that player: the
  components of the owned hexes but the largest one.\<close>

definition ownedHexesOf :: "Cell list \<Rightarrow> PlayerId \<Rightarrow> HexCoord set" where
  "ownedHexesOf cs p =
     set (map (\<lambda>c. (cell_q c, cell_r c)) (filter (\<lambda>c. land c \<and> owner c = p) cs))"

definition exclaveCount :: "'a GameState_scheme \<Rightarrow> PlayerId \<Rightarrow> int" where
  "exclaveCount state p = int (card (componentsOf (ownedHexesOf (cells state) p)) - 1)"

text \<open>
  The bound on the units of a board, and the states the game can be in: the state a new
  game starts with, and every state an action entry point returns from one of them,
  whatever the arguments.
\<close>

definition unitsInRange :: "Cell list \<Rightarrow> bool" where
  "unitsInRange cs \<longleftrightarrow> list_all (\<lambda>c. 0 \<le> units c \<and> units c \<le> 8) cs"

definition wellFormed :: "'a GameState_scheme \<Rightarrow> bool" where
  "wellFormed s \<longleftrightarrow> distinct (map cell_id (cells s)) \<and> unitsInRange (cells s)"

inductive reachable :: "GameState \<Rightarrow> bool" where
  start: "newGame pc goal landHexes g = Some (Inr s) \<Longrightarrow> reachable s"
| after_reinforce: "reachable s \<Longrightarrow> reachable (reinforce s c)"
| after_attack: "reachable s \<Longrightarrow> reachable (fst (attack g s f t))"
| after_move: "reachable s \<Longrightarrow> reachable (move s f t n)"
| after_endTurn: "reachable s \<Longrightarrow> reachable (endTurn s)"

text \<open>
  The states that are reached when \<open>move\<close> is never given the count \<open>NaN\<close>, and the
  units the splitter deals out: whole numbers from 0 to 8.
\<close>

inductive guarded :: "GameState \<Rightarrow> bool" where
  start: "newGame pc goal landHexes g = Some (Inr s) \<Longrightarrow> guarded s"
| after_reinforce: "guarded s \<Longrightarrow> guarded (reinforce s c)"
| after_attack: "guarded s \<Longrightarrow> guarded (fst (attack g s f t))"
| after_move: "guarded s \<Longrightarrow> n \<noteq> Count NaN \<Longrightarrow> guarded (move s f t n)"
| after_endTurn: "guarded s \<Longrightarrow> guarded (endTurn s)"

definition whole :: "number \<Rightarrow> bool" where
  "whole u \<longleftrightarrow> (\<exists>n\<in>{0..8}. u = Num (real_of_int n))"

definition wholeUnits :: "Cell list \<Rightarrow> bool" where
  "wholeUnits cs \<longleftrightarrow> list_all (\<lambda>c. whole (units c)) cs"

text \<open>
  A connected landmass of sixteen hexes, in the order a flood fill from \<open>(0, 0)\<close>
  lists them, the configuration the reducer uses for two players, and a generator
  that cycles through \<open>0/8, 1/8, ..., 7/8\<close>.
\<close>

definition land16 :: "HexCoord list" where
  "land16 = [(0, 0), (1, 0), (0, -1), (-1, 0), (0, 1), (2, 0), (1, 1), (0, -2),
             (-1, -1), (3, -1), (2, 1), (1, -3), (0, -3), (3, -2), (3, 1), (2, -2)]"

definition twoPlayers :: SplitConfig where
  "twoPlayers = \<lparr>playerCount = Two, minTerritorySize = 8\<rparr>"

definition eighths :: rng where
  "eighths n = real (n mod 8) / 8"

text \<open>
  Auxiliary notions for the ownership that \<open>assignPlayersToTerritories\<close> writes: a cell
  with its units forgotten, and the ownership claims of all territories in turn.
\<close>

definition eraseUnits :: "Cell \<Rightarrow> Cell" where
  "eraseUnits c = c\<lparr>units := 0\<rparr>"

fun claimAll :: "PlayerId \<Rightarrow> HexCoord list list \<Rightarrow> Cell list \<Rightarrow> Cell list" where
  "claimAll p [] cs = cs"
| "claimAll p (t # ts) cs = claimAll (Suc p) ts (claimHexes p t cs)"

text \<open>The map configuration the reducer uses for two players.\<close>

definition reducerConfig2 :: MapConfig where
  "reducerConfig2 = \<lparr>width = 8, height = 8, landRatio = 7 / 10, smoothingPasses = 2\<rparr>"

text \<open>Small boards used to instantiate the theorems, built from land cells.\<close>

definition mkCell :: "int \<Rightarrow> int \<Rightarrow> int \<Rightarrow> PlayerId \<Rightarrow> number \<Rightarrow> Cell" where
  "mkCell i cq cr p u =
     \<lparr>cell_id = i, cell_q = cq, cell_r = cr, owner = p, units = u, land = True\<rparr>"

definition mkState :: "Cell list \<Rightarrow> PlayerId \<Rightarrow> Phase \<Rightarrow> int \<Rightarrow> int \<Rightarrow> GameState" where
  "mkState cs p ph rl al =
     \<lparr>cells = cs, players = [0, 1], current = p, phase = ph, reinfLeft = rl,
      actionsLeft = al, scores = (\<lambda>_. 0), round_no = 1, selected = None, winGoal = 5\<rparr>"

definition lossState :: GameState where
  "lossState = mkState [mkCell 0 0 0 0 2, mkCell 1 1 0 1 3] 0 Attack 0 5"

definition winState :: GameState where
  "winState = mkState [mkCell 0 0 0 0 3, mkCell 1 1 0 1 1] 0 Attack 0 5"

text \<open>
  Player 0 holds the two ends of a row of three cells and player 1 the empty middle
  cell, so player 0 has one exclave and the score says so.
\<close>

definition captureState :: GameState where
  "captureState =
     (mkState [mkCell 0 0 0 0 2, mkCell 1 1 0 1 0, mkCell 2 2 0 0 1] 0 Attack 0 5)
       \<lparr>scores := (\<lambda>_. 0)(0 := 1)\<rparr>"

text \<open>A row of thirteen cells: player 0 holds the first, player 1 the other twelve.\<close>

definition rowCells :: "Cell list" where
  "rowCells = [mkCell 0 0 0 0 1, mkCell 1 1 0 1 1, mkCell 2 2 0 1 1, mkCell 3 3 0 1 1,
                 mkCell 4 4 0 1 1, mkCell 5 5 0 1 1, mkCell 6 6 0 1 1, mkCell 7 7 0 1 1,
                 mkCell 8 8 0 1 1, mkCell 9 9 0 1 1, mkCell 10 10 0 1 1,
                 mkCell 11 11 0 1 1, mkCell 12 12 0 1 2]"

lemmas board_defs = mkState_def mkCell_def canAttack_def areAdjacent_def distance_def
  hex_subtract_def

section \<open>Basic facts\<close>

text \<open>Number literals are finite numbers.\<close>

declare zero_number_def [simp] one_number_def [simp]

lemma numeral_number [simp]: "(numeral k :: number) = Num (numeral k)"
proof (induction k)
  case One
  show ?case by simp
next
  case (Bit0 k)
  have "(numeral (num.Bit0 k) :: number) = numeral k + numeral k" by (rule numeral_Bit0)
  also have "\<dots> = Num (numeral k + numeral k)" by (simp only: Bit0 plus_number.simps)
  also have "\<dots> = Num (numeral (num.Bit0 k))" by (simp only: numeral_Bit0)
  finally show ?case .
next
  case (Bit1 k)
  have "(numeral (num.Bit1 k) :: number) = numeral k + numeral k + 1" by (rule numeral_Bit1)
  also have "\<dots> = Num (numeral k + numeral k + 1)"
    by (simp only: Bit1 plus_number.simps one_number_def)
  also have "\<dots> = Num (numeral (num.Bit1 k))" by (simp only: numeral_Bit1)
  finally show ?case .
qed

lemma number_pos_nonzero: "0 < (u :: number) \<Longrightarrow> u \<noteq> 0"
  by (cases u) auto

lemma number_ge_one_nonzero: "1 \<le> (u :: number) \<Longrightarrow> u \<noteq> 0"
  by (cases u) auto

lemma number_less_cases:
  assumes "a < (b :: number)"
  obtains x y where "a = Num x" "b = Num y" "x < y"
  using assms by (cases a; cases b) auto

lemma number_le_cases:
  assumes "a \<le> (b :: number)"
  obtains x y where "a = Num x" "b = Num y" "x \<le> y"
  using assms by (cases a; cases b) auto

lemma loopCount_int [simp]: "loopCount (Num (real_of_int n)) = nat n"
  by simp

lemma Math_min_count_not_Infinity [simp]: "Math_min_count c b \<noteq> Infinity"
  by (cases c; cases b) auto

lemma distance_sum_even: "even (\<bar>a\<bar> + \<bar>a + b\<bar> + \<bar>b :: int\<bar>)"
  by presburger

lemma find_map_same_pred:
  assumes "\<And>x. P (f x) = P x"
  shows "find P (map f xs) = map_option f (find P xs)"
  using assms by (induction xs) auto

lemma find_Some_set: "find P xs = Some x \<Longrightarrow> x \<in> set xs \<and> P x"
  by (induction xs) (auto split: if_splits)

lemma canAttack_cells:
  assumes "canAttack s f t"
  obtains fc tc where
    "find (\<lambda>c. cell_id c = f) (cells s) = Some fc"
    "find (\<lambda>c. cell_id c = t) (cells s) = Some tc"
    "owner fc = current s" "owner tc \<noteq> current s" "\<not> units fc < 1"
    "phase s = Attack" "0 < actionsLeft s" "f \<noteq> t"
proof -
  from assms obtain fc tc where
    fc: "find (\<lambda>c. cell_id c = f) (cells s) = Some fc" and
    tc: "find (\<lambda>c. cell_id c = t) (cells s) = Some tc"
    by (auto simp: canAttack_def split: if_splits option.splits)
  with assms have props:
    "owner fc = current s" "owner tc \<noteq> current s" "\<not> units fc < 1"
    "phase s = Attack" "0 < actionsLeft s"
    by (auto simp: canAttack_def split: if_splits)
  with fc tc have "f \<noteq> t" by auto
  with fc tc props show thesis by (rule that)
qed

section \<open>Invalid actions\<close>

text \<open>
  Claim C3. When the matching \<open>canX\<close> predicate is false, \<open>reinforce\<close>, \<open>attack\<close>,
  \<open>move\<close> and \<open>endTurn\<close> return the state they were given (every field, the display
  fields included); \<open>attack\<close> returns it with the empty dice roll and draws nothing
  from the generator. The four functions are total and the early return comes before
  any cell is looked up, so no exception can arise on that path.
\<close>

theorem invalid_action_noop:
  "(\<not> canReinforce s c \<longrightarrow> reinforce s c = s) \<and>
   (\<not> canAttack s f t \<longrightarrow> attack g s f t = (s, createEmptyDiceRoll, g)) \<and>
   (\<not> canMove s f t \<longrightarrow> move s f t n = s) \<and>
   (\<not> canEndTurn s \<longrightarrow> endTurn s = s)"
  by (simp add: reinforce_def attack_def move_def endTurn_def)

theorem invalid_action_noop_witness:
  "\<not> canReinforce (mkState [] 0 Reinforce 1 5) 0 \<and>
   reinforce (mkState [] 0 Reinforce 1 5) 0 = mkState [] 0 Reinforce 1 5 \<and>
   \<not> canAttack (mkState [] 0 Reinforce 1 5) 0 1 \<and>
   attack (\<lambda>_. 0) (mkState [] 0 Reinforce 1 5) 0 1
     = (mkState [] 0 Reinforce 1 5, createEmptyDiceRoll, (\<lambda>_. 0)) \<and>
   \<not> canMove (mkState [] 0 Reinforce 1 5) 0 1 \<and>
   move (mkState [] 0 Reinforce 1 5) 0 1 (Count 3) = mkState [] 0 Reinforce 1 5 \<and>
   \<not> canEndTurn (mkState [] 0 Reinforce 1 5) \<and>
   endTurn (mkState [] 0 Reinforce 1 5) = mkState [] 0 Reinforce 1 5"
proof -
  have no: "\<not> canReinforce (mkState [] 0 Reinforce 1 5) 0"
    "\<not> canAttack (mkState [] 0 Reinforce 1 5) 0 1"
    "\<not> canMove (mkState [] 0 Reinforce 1 5) 0 1"
    "\<not> canEndTurn (mkState [] 0 Reinforce 1 5)"
    by (simp_all add: canReinforce_def canAttack_def canMove_def canEndTurn_def mkState_def)
  with invalid_action_noop [of "mkState [] 0 Reinforce 1 5" 0 0 1 "\<lambda>_. 0" "Count 3"]
  show ?thesis by simp
qed

section \<open>Combat\<close>

lemma attack_dice_path:
  assumes "canAttack s f t"
    and fc: "find (\<lambda>c. cell_id c = f) (cells s) = Some fc"
    and tc: "find (\<lambda>c. cell_id c = t) (cells s) = Some tc"
    and "units tc \<noteq> 0"
    and roll: "rollDice g (units fc) (units tc) (current s) (owner tc) = (dice, g')"
  shows "attack g s f t =
     (updateExclaveScores (s\<lparr>cells :=
        (if attackerWins dice then
           map (\<lambda>cell.
              if cell_id cell = f
                then cell\<lparr>units := (if units fc \<ge> 2 then 1 else 0)\<rparr>
              else if cell_id cell = t
                then cell\<lparr>owner := current s,
                          units := (if units fc \<ge> 2 then units fc - 1 else units fc)\<rparr>
              else cell) (cells s)
         else
           map (\<lambda>cell.
              if cell_id cell = f then cell\<lparr>owner := owner tc\<rparr>
              else if cell_id cell = t \<and> units tc > 0
                then cell\<lparr>units := Math_min 8 (units tc + 1)\<rparr>
              else cell) (cells s)),
        actionsLeft := actionsLeft s - 1\<rparr>), dice, g')"
  using assms by (simp add: attack_def Let_def)

lemma cells_updateExclaveScores [simp]:
  "cells (updateExclaveScores s) = cells s"
  "actionsLeft (updateExclaveScores s) = actionsLeft s"
  by (simp_all add: updateExclaveScores_def)

lemma rollMany_length: "length (fst (rollMany n g)) = n"
proof (induction n arbitrary: g)
  case 0
  show ?case by simp
next
  case (Suc n)
  from Suc [of "snd (draw g)"] show ?case
    by (auto simp: Let_def split: prod.splits)
qed

text \<open>
  The dice in terms of the draws: the \<open>k\<close>-th die of a loop is computed from the
  \<open>k\<close>-th number the generator returns, and the generator moves on by one draw per die.
\<close>

lemma rollMany_draws:
  "rollMany n g = (map (\<lambda>k. \<lfloor>g k * 6\<rfloor> + 1) [0..<n], \<lambda>m. g (n + m))"
proof (induction n arbitrary: g)
  case 0
  show ?case by simp
next
  case (Suc n)
  have "map (\<lambda>k. \<lfloor>g k * 6\<rfloor> + 1) [0..<Suc n]
          = (\<lfloor>g 0 * 6\<rfloor> + 1) # map (\<lambda>k. \<lfloor>g (Suc k) * 6\<rfloor> + 1) [0..<n]"
    by (simp only: upt_conv_Cons[OF zero_less_Suc] list.map map_Suc_upt[symmetric] map_map o_def)
  with Suc [of "\<lambda>n. g (Suc n)"] show ?case
    by (simp add: draw_def del: upt_Suc)
qed

lemma rollDice_draws:
  assumes "rollDice g a d p q = (dice, g')"
  shows "attacker dice = map (\<lambda>k. \<lfloor>g k * 6\<rfloor> + 1) [0..<loopCount a]"
    and "defender dice = map (\<lambda>k. \<lfloor>g (loopCount a + k) * 6\<rfloor> + 1) [0..<loopCount d]"
    and "attackerTotal dice = sum_list (attacker dice)"
    and "defenderTotal dice = sum_list (defender dice)"
    and "attackerWins dice \<longleftrightarrow> attackerTotal dice > defenderTotal dice"
    and "g' = (\<lambda>m. g (loopCount a + loopCount d + m))"
    and "attackerId dice = p" and "defenderId dice = q"
  using assms by (auto simp: rollDice_def rollMany_draws Let_def add.assoc add.left_commute)

lemma attack_dice_result:
  assumes "canAttack s f t"
    and fc: "find (\<lambda>c. cell_id c = f) (cells s) = Some fc"
    and tc: "find (\<lambda>c. cell_id c = t) (cells s) = Some tc"
    and "units tc \<noteq> 0"
    and att: "attack g s f t = (s', dice, g')"
  shows "rollDice g (units fc) (units tc) (current s) (owner tc) = (dice, g')"
    and "actionsLeft s' = actionsLeft s - 1"
    and "attackerWins dice \<Longrightarrow> cells s' =
           map (\<lambda>cell.
              if cell_id cell = f
                then cell\<lparr>units := (if units fc \<ge> 2 then 1 else 0)\<rparr>
              else if cell_id cell = t
                then cell\<lparr>owner := current s,
                          units := (if units fc \<ge> 2 then units fc - 1 else units fc)\<rparr>
              else cell) (cells s)"
    and "\<not> attackerWins dice \<Longrightarrow> cells s' =
           map (\<lambda>cell.
              if cell_id cell = f then cell\<lparr>owner := owner tc\<rparr>
              else if cell_id cell = t \<and> units tc > 0
                then cell\<lparr>units := Math_min 8 (units tc + 1)\<rparr>
              else cell) (cells s)"
proof -
  obtain d gg where roll: "rollDice g (units fc) (units tc) (current s) (owner tc) = (d, gg)"
    by (cases "rollDice g (units fc) (units tc) (current s) (owner tc)")
  note r = attack_dice_path[OF assms(1) fc tc assms(4) roll]
  from r att roll show "rollDice g (units fc) (units tc) (current s) (owner tc) = (dice, g')"
    by simp
  from r att show "actionsLeft s' = actionsLeft s - 1" by auto
  from r att have d: "d = dice" by simp
  { assume "attackerWins dice"
    with r att d show "cells s' =
           map (\<lambda>cell.
              if cell_id cell = f
                then cell\<lparr>units := (if units fc \<ge> 2 then 1 else 0)\<rparr>
              else if cell_id cell = t
                then cell\<lparr>owner := current s,
                          units := (if units fc \<ge> 2 then units fc - 1 else units fc)\<rparr>
              else cell) (cells s)" by auto }
  { assume "\<not> attackerWins dice"
    with r att d show "cells s' =
           map (\<lambda>cell.
              if cell_id cell = f then cell\<lparr>owner := owner tc\<rparr>
              else if cell_id cell = t \<and> units tc > 0
                then cell\<lparr>units := Math_min 8 (units tc + 1)\<rparr>
              else cell) (cells s)" by auto }
qed

lemma attack_capture_path:
  assumes "canAttack s f t"
    and fc: "find (\<lambda>c. cell_id c = f) (cells s) = Some fc"
    and tc: "find (\<lambda>c. cell_id c = t) (cells s) = Some tc"
    and "units tc = 0"
  shows "attack g s f t =
     (s\<lparr>cells := map (\<lambda>cell.
          if cell_id cell = f
            then cell\<lparr>units := (if units fc \<ge> 2 then 1 else 0)\<rparr>
          else if cell_id cell = t
            then cell\<lparr>owner := current s,
                      units := (if units fc \<ge> 2 then units fc - 1 else units fc)\<rparr>
          else cell) (cells s)\<rparr>, createEmptyDiceRoll, g)"
  using assms by (simp add: attack_def Let_def)

text \<open>
  Claim C5. A valid attack on a defended cell that the attacker loses: looked up by
  its id in the new state, the \<open>from\<close> cell is the old \<open>from\<close> cell with the owner the
  \<open>to\<close> cell had (its units and everything else unchanged), and the \<open>to\<close> cell is the
  old \<open>to\<close> cell with \<open>Math.min(8, units + 1)\<close> units.
\<close>

theorem attack_loss:
  assumes "canAttack s f t"
    and fc: "find (\<lambda>c. cell_id c = f) (cells s) = Some fc"
    and tc: "find (\<lambda>c. cell_id c = t) (cells s) = Some tc"
    and "units tc > 0"
    and att: "attack g s f t = (s', dice, g')"
    and "\<not> attackerWins dice"
  shows "find (\<lambda>c. cell_id c = f) (cells s') = Some (fc\<lparr>owner := owner tc\<rparr>) \<and>
         find (\<lambda>c. cell_id c = t) (cells s') = Some (tc\<lparr>units := Math_min 8 (units tc + 1)\<rparr>)"
proof -
  from assms(1) fc tc have ft: "f \<noteq> t"
    by (elim canAttack_cells) auto
  from fc have idf: "cell_id fc = f" by (auto dest: find_Some_set)
  from tc have idt: "cell_id tc = t" by (auto dest: find_Some_set)
  from assms(4) have "units tc \<noteq> 0" by (rule number_pos_nonzero)
  from attack_dice_result(4)[OF assms(1) fc tc this att assms(6)]
  have cs: "cells s' = map (\<lambda>cell.
              if cell_id cell = f then cell\<lparr>owner := owner tc\<rparr>
              else if cell_id cell = t \<and> units tc > 0
                then cell\<lparr>units := Math_min 8 (units tc + 1)\<rparr>
              else cell) (cells s)" .
  have "find (\<lambda>c. cell_id c = f) (cells s') = Some (fc\<lparr>owner := owner tc\<rparr>)"
    unfolding cs by (subst find_map_same_pred) (auto simp: fc idf)
  moreover have "find (\<lambda>c. cell_id c = t) (cells s')
                   = Some (tc\<lparr>units := Math_min 8 (units tc + 1)\<rparr>)"
    unfolding cs using ft assms(4) by (subst find_map_same_pred) (auto simp: tc idt)
  ultimately show ?thesis by simp
qed

theorem attack_loss_witness:
  "canAttack lossState 0 1 \<and>
   \<not> attackerWins (fst (snd (attack (\<lambda>_. 0) lossState 0 1))) \<and>
   find (\<lambda>c. cell_id c = 0) (cells (fst (attack (\<lambda>_. 0) lossState 0 1)))
     = Some (mkCell 0 0 0 1 2) \<and>
   find (\<lambda>c. cell_id c = 1) (cells (fst (attack (\<lambda>_. 0) lossState 0 1)))
     = Some (mkCell 1 1 0 1 4)"
proof -
  have ca: "canAttack lossState 0 1"
    by (simp add: lossState_def board_defs)
  have fc: "find (\<lambda>c. cell_id c = 0) (cells lossState) = Some (mkCell 0 0 0 0 2)"
    by (simp add: lossState_def mkState_def mkCell_def)
  have tc: "find (\<lambda>c. cell_id c = 1) (cells lossState) = Some (mkCell 1 1 0 1 3)"
    by (simp add: lossState_def mkState_def mkCell_def)
  have u: "units (mkCell 1 1 0 1 3) > 0" by (simp add: mkCell_def)
  have att: "attack (\<lambda>_. 0) lossState 0 1
       = (fst (attack (\<lambda>_. 0) lossState 0 1), fst (snd (attack (\<lambda>_. 0) lossState 0 1)),
          snd (snd (attack (\<lambda>_. 0) lossState 0 1)))" by simp
  have lose: "\<not> attackerWins (fst (snd (attack (\<lambda>_. 0) lossState 0 1)))"
    by (simp add: lossState_def board_defs attack_def rollDice_def draw_def Let_def
        eval_nat_numeral)
  from attack_loss [OF ca fc tc u att lose] ca lose show ?thesis
    by (simp add: mkCell_def)
qed

text \<open>
  Claim C7. A valid attack with at least two attacking units on a defended cell that
  the attacker wins: the \<open>from\<close> cell keeps one unit, and the \<open>to\<close> cell belongs to the
  attacker (the current player) and holds the other \<open>A - 1\<close> units.
\<close>

theorem attack_win:
  assumes "canAttack s f t"
    and fc: "find (\<lambda>c. cell_id c = f) (cells s) = Some fc"
    and tc: "find (\<lambda>c. cell_id c = t) (cells s) = Some tc"
    and "units fc \<ge> 2" and "units tc \<ge> 1"
    and att: "attack g s f t = (s', dice, g')"
    and "attackerWins dice"
  shows "find (\<lambda>c. cell_id c = f) (cells s') = Some (fc\<lparr>units := 1\<rparr>) \<and>
         find (\<lambda>c. cell_id c = t) (cells s')
           = Some (tc\<lparr>owner := current s, units := units fc - 1\<rparr>)"
proof -
  from assms(1) fc tc have ft: "f \<noteq> t"
    by (elim canAttack_cells) auto
  from fc have idf: "cell_id fc = f" by (auto dest: find_Some_set)
  from tc have idt: "cell_id tc = t" by (auto dest: find_Some_set)
  from assms(5) have "units tc \<noteq> 0" by (rule number_ge_one_nonzero)
  from attack_dice_result(3)[OF assms(1) fc tc this att assms(7)] assms(4)
  have cs: "cells s' = map (\<lambda>cell.
              if cell_id cell = f then cell\<lparr>units := 1\<rparr>
              else if cell_id cell = t
                then cell\<lparr>owner := current s, units := units fc - 1\<rparr>
              else cell) (cells s)" by simp
  have "find (\<lambda>c. cell_id c = f) (cells s') = Some (fc\<lparr>units := 1\<rparr>)"
    unfolding cs by (subst find_map_same_pred) (auto simp: fc idf)
  moreover have "find (\<lambda>c. cell_id c = t) (cells s')
                   = Some (tc\<lparr>owner := current s, units := units fc - 1\<rparr>)"
    unfolding cs using ft by (subst find_map_same_pred) (auto simp: tc idt)
  ultimately show ?thesis by simp
qed

theorem attack_win_witness:
  "canAttack winState 0 1 \<and>
   attackerWins (fst (snd (attack (\<lambda>_. 0) winState 0 1))) \<and>
   find (\<lambda>c. cell_id c = 0) (cells (fst (attack (\<lambda>_. 0) winState 0 1)))
     = Some (mkCell 0 0 0 0 1) \<and>
   find (\<lambda>c. cell_id c = 1) (cells (fst (attack (\<lambda>_. 0) winState 0 1)))
     = Some (mkCell 1 1 0 0 2)"
proof -
  have ca: "canAttack winState 0 1"
    by (simp add: winState_def board_defs)
  have fc: "find (\<lambda>c. cell_id c = 0) (cells winState) = Some (mkCell 0 0 0 0 3)"
    by (simp add: winState_def mkState_def mkCell_def)
  have tc: "find (\<lambda>c. cell_id c = 1) (cells winState) = Some (mkCell 1 1 0 1 1)"
    by (simp add: winState_def mkState_def mkCell_def)
  have u: "units (mkCell 0 0 0 0 3) \<ge> 2" "units (mkCell 1 1 0 1 1) \<ge> 1"
    by (simp_all add: mkCell_def)
  have att: "attack (\<lambda>_. 0) winState 0 1
       = (fst (attack (\<lambda>_. 0) winState 0 1), fst (snd (attack (\<lambda>_. 0) winState 0 1)),
          snd (snd (attack (\<lambda>_. 0) winState 0 1)))" by simp
  have win: "attackerWins (fst (snd (attack (\<lambda>_. 0) winState 0 1)))"
    by (simp add: winState_def board_defs attack_def rollDice_def draw_def Let_def
        eval_nat_numeral)
  from attack_win [OF ca fc tc u att win] ca win show ?thesis
    by (simp add: mkCell_def winState_def mkState_def)
qed

text \<open>
  Claim C6. A valid attack on a cell with no units captures it without dice: the
  result carries the empty dice roll, the generator is untouched, the \<open>to\<close> cell
  belongs to the current player, and \<open>actionsLeft\<close> is what it was. A valid attack on
  a cell with units rolls the dice and takes one from \<open>actionsLeft\<close>: the attacker's
  dice are computed from the first draws of the generator, one draw per iteration of
  the loop over the \<open>from\<close> cell's units (one die per unit when the units are a whole
  number), the defender's dice from the draws that follow, at least one of them, the
  totals and the winner are those of these dice, and the generator has moved on by as
  many draws as there are dice.
\<close>

theorem attack_action_points:
  assumes "canAttack s f t"
    and fc: "find (\<lambda>c. cell_id c = f) (cells s) = Some fc"
    and tc: "find (\<lambda>c. cell_id c = t) (cells s) = Some tc"
    and att: "attack g s f t = (s', dice, g')"
  shows "(units tc = 0 \<longrightarrow>
            actionsLeft s' = actionsLeft s \<and> dice = createEmptyDiceRoll \<and> g' = g \<and>
            find (\<lambda>c. cell_id c = f) (cells s')
              = Some (fc\<lparr>units := (if units fc \<ge> 2 then 1 else 0)\<rparr>) \<and>
            find (\<lambda>c. cell_id c = t) (cells s')
              = Some (tc\<lparr>owner := current s,
                         units := (if units fc \<ge> 2 then units fc - 1 else units fc)\<rparr>)) \<and>
         (units tc > 0 \<longrightarrow>
            actionsLeft s' = actionsLeft s - 1 \<and>
            attackerId dice = current s \<and> defenderId dice = owner tc \<and>
            attacker dice = map (\<lambda>k. \<lfloor>g k * 6\<rfloor> + 1) [0..<loopCount (units fc)] \<and>
            defender dice = map (\<lambda>k. \<lfloor>g (loopCount (units fc) + k) * 6\<rfloor> + 1)
                                [0..<loopCount (units tc)] \<and>
            0 < loopCount (units tc) \<and>
            attackerTotal dice = sum_list (attacker dice) \<and>
            defenderTotal dice = sum_list (defender dice) \<and>
            (attackerWins dice \<longleftrightarrow> attackerTotal dice > defenderTotal dice) \<and>
            g' = (\<lambda>m. g (loopCount (units fc) + loopCount (units tc) + m)))"
proof (intro conjI impI)
  assume z: "units tc = 0"
  note r = attack_capture_path[OF assms(1) fc tc z, of g]
  from assms(1) fc tc have ft: "f \<noteq> t"
    by (elim canAttack_cells) auto
  from tc have idt: "cell_id tc = t" by (auto dest: find_Some_set)
  from fc have idf: "cell_id fc = f" by (auto dest: find_Some_set)
  from r att show "actionsLeft s' = actionsLeft s" by auto
  from r att show "dice = createEmptyDiceRoll" by simp
  from r att show "g' = g" by simp
  from r att have cs: "cells s' = map (\<lambda>cell.
          if cell_id cell = f
            then cell\<lparr>units := (if units fc \<ge> 2 then 1 else 0)\<rparr>
          else if cell_id cell = t
            then cell\<lparr>owner := current s,
                      units := (if units fc \<ge> 2 then units fc - 1 else units fc)\<rparr>
          else cell) (cells s)" by auto
  show "find (\<lambda>c. cell_id c = f) (cells s')
          = Some (fc\<lparr>units := (if units fc \<ge> 2 then 1 else 0)\<rparr>)"
    unfolding cs by (subst find_map_same_pred) (auto simp: fc idf)
  show "find (\<lambda>c. cell_id c = t) (cells s')
          = Some (tc\<lparr>owner := current s,
                     units := (if units fc \<ge> 2 then units fc - 1 else units fc)\<rparr>)"
    unfolding cs using ft by (subst find_map_same_pred) (auto simp: tc idt)
next
  assume pos: "units tc > 0"
  then have nz: "units tc \<noteq> 0" by (rule number_pos_nonzero)
  note r = attack_dice_result[OF assms(1) fc tc nz att]
  note d = rollDice_draws[OF r(1)]
  from r(2) show "actionsLeft s' = actionsLeft s - 1" .
  from d(7) show "attackerId dice = current s" .
  from d(8) show "defenderId dice = owner tc" .
  from d(1) show "attacker dice = map (\<lambda>k. \<lfloor>g k * 6\<rfloor> + 1) [0..<loopCount (units fc)]" .
  from d(2) show "defender dice = map (\<lambda>k. \<lfloor>g (loopCount (units fc) + k) * 6\<rfloor> + 1)
                                     [0..<loopCount (units tc)]" .
  from pos show "0 < loopCount (units tc)" by (cases "units tc") auto
  from d(3) show "attackerTotal dice = sum_list (attacker dice)" .
  from d(4) show "defenderTotal dice = sum_list (defender dice)" .
  from d(5) show "attackerWins dice \<longleftrightarrow> attackerTotal dice > defenderTotal dice" .
  from d(6) show "g' = (\<lambda>m. g (loopCount (units fc) + loopCount (units tc) + m))" .
qed

theorem attack_action_points_witness:
  "canAttack captureState 0 1 \<and>
   actionsLeft (fst (attack eighths captureState 0 1)) = 5 \<and>
   fst (snd (attack eighths captureState 0 1)) = createEmptyDiceRoll \<and>
   snd (snd (attack eighths captureState 0 1)) = eighths \<and>
   find (\<lambda>c. cell_id c = 0) (cells (fst (attack eighths captureState 0 1)))
     = Some (mkCell 0 0 0 0 1) \<and>
   find (\<lambda>c. cell_id c = 1) (cells (fst (attack eighths captureState 0 1)))
     = Some (mkCell 1 1 0 0 1) \<and>
   canAttack lossState 0 1 \<and>
   actionsLeft (fst (attack eighths lossState 0 1)) = 4 \<and>
   attacker (fst (snd (attack eighths lossState 0 1))) = [1, 1] \<and>
   defender (fst (snd (attack eighths lossState 0 1))) = [2, 3, 4] \<and>
   attackerTotal (fst (snd (attack eighths lossState 0 1))) = 2 \<and>
   defenderTotal (fst (snd (attack eighths lossState 0 1))) = 9 \<and>
   \<not> attackerWins (fst (snd (attack eighths lossState 0 1))) \<and>
   snd (snd (attack eighths lossState 0 1)) 0 = 5 / 8"
proof -
  have ca: "canAttack captureState 0 1"
    by (simp add: captureState_def board_defs)
  have fc: "find (\<lambda>c. cell_id c = 0) (cells captureState) = Some (mkCell 0 0 0 0 2)"
    by (simp add: captureState_def mkState_def mkCell_def)
  have tc: "find (\<lambda>c. cell_id c = 1) (cells captureState) = Some (mkCell 1 1 0 1 0)"
    by (simp add: captureState_def mkState_def mkCell_def)
  have att: "attack eighths captureState 0 1
       = (fst (attack eighths captureState 0 1), fst (snd (attack eighths captureState 0 1)),
          snd (snd (attack eighths captureState 0 1)))" by simp
  have ca2: "canAttack lossState 0 1"
    by (simp add: lossState_def board_defs)
  have fc2: "find (\<lambda>c. cell_id c = 0) (cells lossState) = Some (mkCell 0 0 0 0 2)"
    by (simp add: lossState_def mkState_def mkCell_def)
  have tc2: "find (\<lambda>c. cell_id c = 1) (cells lossState) = Some (mkCell 1 1 0 1 3)"
    by (simp add: lossState_def mkState_def mkCell_def)
  have att2: "attack eighths lossState 0 1
       = (fst (attack eighths lossState 0 1), fst (snd (attack eighths lossState 0 1)),
          snd (snd (attack eighths lossState 0 1)))" by simp
  have u: "units (mkCell 1 1 0 1 0) = 0" "units (mkCell 1 1 0 1 3) > 0"
    "loopCount (units (mkCell 0 0 0 0 2)) = 2" "loopCount (units (mkCell 1 1 0 1 3)) = 3"
    by (simp_all add: mkCell_def)
  have a: "map (\<lambda>k. \<lfloor>eighths k * 6\<rfloor> + 1) [0..<2] = [1, 1]"
    by code_simp
  have d: "map (\<lambda>k. \<lfloor>eighths (2 + k) * 6\<rfloor> + 1) [0..<3] = [2, 3, 4]"
    by code_simp
  have e: "eighths 5 = 5 / 8" by (simp add: eighths_def)
  from attack_action_points [OF ca fc tc att] attack_action_points [OF ca2 fc2 tc2 att2]
    ca ca2 u a d e
  show ?thesis
    by (simp add: mkCell_def captureState_def lossState_def mkState_def)
qed

section \<open>Turn rotation\<close>

lemma indexOf_notin: "p \<notin> set ps \<Longrightarrow> indexOf ps p = -1"
  by (induction ps) auto

lemma indexOf_first: "p \<notin> set xs \<Longrightarrow> indexOf (xs @ p # ys) p = int (length xs)"
  by (induction xs) (auto simp: Let_def)

lemma next_index_nextInOrder:
  assumes "ps \<noteq> []"
  shows "ps ! nat ((indexOf ps p + 1) mod int (length ps)) = nextInOrder ps p"
proof (cases "p \<in> set ps")
  case False
  then have dw: "dropWhile (\<lambda>x. x \<noteq> p) ps = []" by auto
  from False assms show ?thesis
    unfolding nextInOrder_def dw by (simp add: indexOf_notin hd_conv_nth)
next
  case True
  then obtain xs ys where ps: "ps = xs @ p # ys" and nin: "p \<notin> set xs"
    by (auto dest: split_list_first)
  from nin have dw: "dropWhile (\<lambda>x. x \<noteq> p) ps = p # ys"
    unfolding ps by (auto simp: dropWhile_append3)
  show ?thesis
  proof (cases ys)
    case Nil
    have "(int (length xs) + 1) mod (1 + int (length xs)) = 0"
      by (simp add: add.commute)
    with ps nin Nil show ?thesis
      unfolding nextInOrder_def dw by (simp add: indexOf_first hd_conv_nth)
  next
    case (Cons y zs)
    have "(int (length xs) + 1) mod int (length ps) = int (length xs) + 1"
      unfolding ps Cons by simp
    then have "nat ((indexOf ps p + 1) mod int (length ps)) = Suc (length xs)"
      using indexOf_first[OF nin, of ys] unfolding ps by (simp add: nat_add_distrib)
    moreover have "ps ! Suc (length xs) = y"
      unfolding ps Cons by (simp add: nth_append)
    ultimately show ?thesis unfolding nextInOrder_def dw Cons by simp
  qed
qed

text \<open>
  Claim C9. When \<open>endTurn\<close> is allowed (and there is a player to rotate to), the new
  state is the old one with: \<open>current\<close> the next player in turn order; \<open>round\<close> one more
  exactly when that player is the first of \<open>players\<close>; \<open>reinfLeft\<close> the greater of 1
  and a sixth (rounded down) of the number of land cells that player owns;
  \<open>actionsLeft\<close> 5; \<open>phase\<close> reinforce; no selection. Nothing else changes.
\<close>

theorem endTurn_effect:
  assumes "canEndTurn s" and "players s \<noteq> []"
  shows "endTurn s =
     s\<lparr>round_no := (if nextInOrder (players s) (current s) = hd (players s)
                    then round_no s + 1 else round_no s),
       current := nextInOrder (players s) (current s),
       phase := Reinforce,
       reinfLeft := max 1 (int (length (filter
                      (\<lambda>c. land c \<and> owner c = nextInOrder (players s) (current s))
                      (cells s))) div 6),
       actionsLeft := 5,
       selected := None\<rparr>"
  using assms next_index_nextInOrder[OF assms(2), of "current s"]
  by (simp add: endTurn_def Let_def getPlayerTerritoryCount_def hd_conv_nth)



theorem endTurn_effect_witness:
  "canEndTurn (mkState rowCells 0 Attack 0 3) \<and>
   endTurn (mkState rowCells 0 Attack 0 3) = mkState rowCells 1 Reinforce 2 5 \<and>
   canEndTurn (mkState rowCells 1 Attack 2 0) \<and>
   endTurn (mkState rowCells 1 Attack 2 0)
     = (mkState rowCells 0 Reinforce 1 5)\<lparr>round_no := 2\<rparr>"
proof -
  have c: "canEndTurn (mkState rowCells 0 Attack 0 3)"
    "canEndTurn (mkState rowCells 1 Attack 2 0)"
    by (simp_all add: canEndTurn_def mkState_def)
  have p: "players (mkState rowCells 0 Attack 0 3) \<noteq> []"
    "players (mkState rowCells 1 Attack 2 0) \<noteq> []"
    by (simp_all add: mkState_def)
  from endTurn_effect [OF c(1) p(1)] endTurn_effect [OF c(2) p(2)] c
  show ?thesis
    by (simp add: mkState_def rowCells_def mkCell_def nextInOrder_def)
qed

text \<open>
  Claim C10. In a state where the current player owns no land cell, the phase is
  reinforce and both \<open>reinfLeft\<close> and \<open>actionsLeft\<close> are positive, all four \<open>canX\<close>
  predicates are false for every argument and all four entry points return the state
  itself. The witness is the state \<open>endTurn\<close> produces when it rotates to a player
  without territory.
\<close>

theorem no_territory_stuck:
  assumes "getPlayerTerritoryCount s (current s) = 0"
    and "phase s = Reinforce" and "reinfLeft s > 0" and "actionsLeft s > 0"
  shows "\<not> canReinforce s c \<and> \<not> canAttack s f t \<and> \<not> canMove s f t \<and> \<not> canEndTurn s \<and>
         reinforce s c = s \<and> attack g s f t = (s, createEmptyDiceRoll, g) \<and>
         move s f t n = s \<and> endTurn s = s"
proof -
  from assms(1) have none: "\<And>x. x \<in> set (cells s) \<Longrightarrow> \<not> (land x \<and> owner x = current s)"
    by (auto simp: getPlayerTerritoryCount_def filter_empty_conv)
  have r: "\<not> canReinforce s c"
    using none by (auto simp: canReinforce_def split: option.splits dest!: find_Some_set)
  have a: "\<not> canAttack s f t" using assms(2) by (simp add: canAttack_def)
  have m: "\<not> canMove s f t" using assms(2) by (simp add: canMove_def)
  have e: "\<not> canEndTurn s" using assms(3,4) by (simp add: canEndTurn_def)
  from r a m e show ?thesis
    by (simp add: reinforce_def attack_def move_def endTurn_def)
qed

theorem no_territory_stuck_witness:
  "getPlayerTerritoryCount (endTurn (mkState [mkCell 0 0 0 0 1] 0 Attack 0 3)) 1 = 0 \<and>
   endTurn (mkState [mkCell 0 0 0 0 1] 0 Attack 0 3) = mkState [mkCell 0 0 0 0 1] 1 Reinforce 1 5 \<and>
   \<not> canReinforce (mkState [mkCell 0 0 0 0 1] 1 Reinforce 1 5) 0 \<and>
   \<not> canEndTurn (mkState [mkCell 0 0 0 0 1] 1 Reinforce 1 5) \<and>
   reinforce (mkState [mkCell 0 0 0 0 1] 1 Reinforce 1 5) 0
     = mkState [mkCell 0 0 0 0 1] 1 Reinforce 1 5 \<and>
   endTurn (mkState [mkCell 0 0 0 0 1] 1 Reinforce 1 5)
     = mkState [mkCell 0 0 0 0 1] 1 Reinforce 1 5"
proof -
  have e: "endTurn (mkState [mkCell 0 0 0 0 1] 0 Attack 0 3)
             = mkState [mkCell 0 0 0 0 1] 1 Reinforce 1 5"
    by (simp add: endTurn_def canEndTurn_def mkState_def mkCell_def Let_def
        getPlayerTerritoryCount_def)
  have h: "getPlayerTerritoryCount (mkState [mkCell 0 0 0 0 1] 1 Reinforce 1 5)
             (current (mkState [mkCell 0 0 0 0 1] 1 Reinforce 1 5)) = 0"
    "phase (mkState [mkCell 0 0 0 0 1] 1 Reinforce 1 5) = Reinforce"
    "reinfLeft (mkState [mkCell 0 0 0 0 1] 1 Reinforce 1 5) > 0"
    "actionsLeft (mkState [mkCell 0 0 0 0 1] 1 Reinforce 1 5) > 0"
    by (simp_all add: mkState_def mkCell_def getPlayerTerritoryCount_def)
  from no_territory_stuck [OF h, of 0 0 0 "\<lambda>_. 0" "Count 1"] e h(1) show ?thesis
    by (simp add: mkState_def)
qed

section \<open>Unit bounds\<close>

lemma inRange_iff: "0 \<le> u \<and> u \<le> (8 :: number) \<longleftrightarrow> (\<exists>x. u = Num x \<and> 0 \<le> x \<and> x \<le> 8)"
  by (cases u) auto

lemma whole_inRange: "whole u \<Longrightarrow> 0 \<le> u \<and> u \<le> 8"
  by (auto simp: whole_def)

lemma whole_zero: "whole 0"
  unfolding whole_def by (rule bexI[of _ 0]) simp_all

lemma whole_one: "whole 1"
  unfolding whole_def by (rule bexI[of _ 1]) simp_all

lemma whole_increment:
  assumes "whole u" "u < 8"
  shows "whole (u + 1)"
proof -
  from assms obtain n :: int where n: "u = Num (real_of_int n)" "0 \<le> n" "n < 8"
    by (auto simp: whole_def)
  then have "u + 1 = Num (real_of_int (n + 1))" "n + 1 \<in> {0..8}" by simp_all
  then show ?thesis unfolding whole_def by blast
qed

lemma updateFirst_ids:
  assumes "\<And>c. cell_id (f c) = cell_id c"
  shows "map cell_id (updateFirst P f cs) = map cell_id cs"
  using assms by (induction cs) auto

lemma updateFirst_all:
  assumes "list_all Q cs"
    and "\<And>c. find P cs = Some c \<Longrightarrow> Q c \<Longrightarrow> Q (f c)"
  shows "list_all Q (updateFirst P f cs)"
  using assms by (induction cs) auto

lemma fold_updateFirst_all:
  assumes "list_all Q cs"
    and "\<And>h c. Q c \<Longrightarrow> Q (f h c)"
  shows "list_all Q (fold (\<lambda>hex res. updateFirst (P hex) (f hex) res) t cs)"
  using assms(1)
proof (induction t arbitrary: cs)
  case Nil
  then show ?case by simp
next
  case (Cons h t)
  have "list_all Q (updateFirst (P h) (f h) cs)"
    using Cons.prems assms(2) by (intro updateFirst_all) auto
  from Cons.IH[OF this] show ?case by simp
qed

lemma fold_updateFirst_ids:
  assumes "\<And>h c. cell_id (f h c) = cell_id c"
  shows "map cell_id (fold (\<lambda>hex res. updateFirst (P hex) (f hex) res) t cs) = map cell_id cs"
  by (induction t arbitrary: cs) (simp_all add: updateFirst_ids assms)

lemma claimHexes_whole: "wholeUnits cs \<Longrightarrow> wholeUnits (claimHexes p t cs)"
  unfolding claimHexes_def wholeUnits_def
  by (rule fold_updateFirst_all) (use whole_zero in auto)

lemma claimHexes_ids: "map cell_id (claimHexes p t cs) = map cell_id cs"
  unfolding claimHexes_def by (rule fold_updateFirst_ids) simp

lemma ensureOneUnit_whole: "wholeUnits cs \<Longrightarrow> wholeUnits (ensureOneUnit t cs)"
  unfolding ensureOneUnit_def wholeUnits_def
  by (rule fold_updateFirst_all) (use whole_one in auto)

lemma ensureOneUnit_ids: "map cell_id (ensureOneUnit t cs) = map cell_id cs"
  unfolding ensureOneUnit_def by (rule fold_updateFirst_ids) simp

lemma distributeUnits_invariant_aux:
  assumes run: "distributeUnits r t cs g = Some y"
    and step: "\<And>h xs cell. find (atHex h) xs = Some cell \<Longrightarrow> units cell < 8 \<Longrightarrow> Q xs \<Longrightarrow>
                  Q (updateFirst (atHex h) (\<lambda>c. c\<lparr>units := units c + 1\<rparr>) xs)"
  shows "Q cs \<longrightarrow> (\<forall>cs' g'. y = Inr (cs', g') \<longrightarrow> Q cs')"
proof (rule distributeUnits.raw_induct
         [where P = "\<lambda>r t cs g y. Q cs \<longrightarrow> (\<forall>cs' g'. y = Inr (cs', g') \<longrightarrow> Q cs')", OF _ run],
       goal_cases)
  case (1 du r t cs g y)
  show ?case
  proof (cases "r > 0")
    case False
    with 1(2) show ?thesis by auto
  next
    case True
    obtain x g1 where dr: "draw g = (x, g1)" by (cases "draw g")
    let ?k = "\<lfloor>x * real (length t)\<rfloor>"
    let ?h = "t ! nat ?k"
    show ?thesis
    proof (cases "0 \<le> ?k \<and> ?k < int (length t)")
      case False
      with True dr 1(2) show ?thesis by (auto simp: Let_def)
    next
      case inr: True
      show ?thesis
      proof (cases "find (atHex ?h) cs")
        case None
        with True inr dr 1(2) have "du r t cs g1 = Some y"
          by (simp add: Let_def)
        from 1(1)[OF this] show ?thesis .
      next
        case (Some cell)
        show ?thesis
        proof (cases "units cell < 8")
          case False
          with Some True inr dr 1(2) have "du r t cs g1 = Some y"
            by (simp add: Let_def)
          from 1(1)[OF this] show ?thesis .
        next
          case lt: True
          let ?cs = "updateFirst (atHex ?h) (\<lambda>c. c\<lparr>units := units c + 1\<rparr>) cs"
          from lt Some True inr dr 1(2)
          have "du (r - 1) t ?cs g1 = Some y"
            by (simp add: Let_def)
          from 1(1)[OF this] step[OF Some lt] show ?thesis by blast
        qed
      qed
    qed
  qed
qed

lemma distributeUnits_invariant:
  assumes run: "distributeUnits r t cs g = Some (Inr (cs', g'))"
    and step: "\<And>h xs cell. find (atHex h) xs = Some cell \<Longrightarrow> units cell < 8 \<Longrightarrow> Q xs \<Longrightarrow>
                  Q (updateFirst (atHex h) (\<lambda>c. c\<lparr>units := units c + 1\<rparr>) xs)"
    and init: "Q cs"
  shows "Q cs'"
  using distributeUnits_invariant_aux[of r t cs g "Inr (cs', g')" Q, OF run step] init
  by simp

lemma distributeUnits_whole:
  assumes "distributeUnits r t cs g = Some (Inr (cs', g'))" "wholeUnits cs"
  shows "wholeUnits cs'"
proof (rule distributeUnits_invariant[where Q = wholeUnits, OF assms(1) _ assms(2)])
  fix h xs cell
  assume f: "find (atHex h) xs = Some cell" and lt: "units cell < 8" and ok: "wholeUnits xs"
  show "wholeUnits (updateFirst (atHex h) (\<lambda>c. c\<lparr>units := units c + 1\<rparr>) xs)"
    unfolding wholeUnits_def
  proof (rule updateFirst_all)
    from ok show "list_all (\<lambda>c. whole (units c)) xs" by (simp add: wholeUnits_def)
  next
    fix c assume "find (atHex h) xs = Some c" "whole (units c)"
    with f lt show "whole (units (c\<lparr>units := units c + 1\<rparr>))"
      using whole_increment[of "units c"] by simp
  qed
qed

lemma distributeUnits_ids:
  assumes "distributeUnits r t cs g = Some (Inr (cs', g'))"
  shows "map cell_id cs' = map cell_id cs"
  by (rule distributeUnits_invariant
        [where Q = "\<lambda>xs. map cell_id xs = map cell_id cs", OF assms])
     (simp_all add: updateFirst_ids)

lemma assignLoop_inv:
  assumes "assignLoop p ts cs g = Some (Inr (cs', g'))"
  shows "(wholeUnits cs \<longrightarrow> wholeUnits cs') \<and> map cell_id cs' = map cell_id cs"
  using assms
proof (induction ts arbitrary: p cs g)
  case Nil
  then show ?case by simp
next
  case (Cons t ts)
  from Cons.prems obtain r1 g1 where
    d: "distributeUnits (int (length t) * 4) t (claimHexes p t cs) g = Some (Inr (r1, g1))"
    and rest: "assignLoop (Suc p) ts (ensureOneUnit t r1) g1 = Some (Inr (cs', g'))"
    by (auto split: option.splits sum.splits)
  from distributeUnits_whole[OF d] distributeUnits_ids[OF d] Cons.IH[OF rest] show ?case
    by (auto simp: claimHexes_whole claimHexes_ids ensureOneUnit_whole ensureOneUnit_ids)
qed

lemma splitTerritory_inv:
  assumes "splitTerritory cs cfg g = Some (Inr (cs', g'))"
  shows "(wholeUnits cs \<longrightarrow> wholeUnits cs') \<and> map cell_id cs' = map cell_id cs"
  using assms
  by (auto simp: splitTerritory_def Let_def assignPlayersToTerritories_def
      split: if_splits sum.splits prod.splits dest: assignLoop_inv)

lemma generateCells_inv:
  "wholeUnits (generateCells hs)" "distinct (map cell_id (generateCells hs))"
proof -
  show "wholeUnits (generateCells hs)"
    using whole_one by (auto simp: generateCells_def wholeUnits_def list_all_iff)
  have "map cell_id (generateCells hs) = map int [0..<length hs]"
    by (auto simp: generateCells_def intro!: nth_equalityI)
  then show "distinct (map cell_id (generateCells hs))"
    by (simp add: distinct_map inj_on_def)
qed

lemma wholeUnits_inRange: "wholeUnits cs \<Longrightarrow> unitsInRange cs"
  using whole_inRange by (auto simp: wholeUnits_def unitsInRange_def list_all_iff)

lemma find_distinct_id:
  assumes "distinct (map cell_id cs)" "c \<in> set cs"
  shows "find (\<lambda>x. cell_id x = cell_id c) cs = Some c"
  using assms by (induction cs) (auto simp: rev_image_eqI)

lemma unitsInRange_map:
  assumes "unitsInRange cs"
    and "\<And>c. c \<in> set cs \<Longrightarrow> 0 \<le> units c \<Longrightarrow> units c \<le> 8 \<Longrightarrow>
            0 \<le> units (f c) \<and> units (f c) \<le> 8"
  shows "unitsInRange (map f cs)"
  using assms by (auto simp: unitsInRange_def list_all_iff)

lemma wellFormed_map:
  assumes "wellFormed s"
    and ids: "\<And>c. cell_id (f c) = cell_id c"
    and "unitsInRange (map f (cells s))"
    and "cells s' = map f (cells s)"
  shows "wellFormed s'"
proof -
  have "map (cell_id \<circ> f) (cells s) = map cell_id (cells s)"
    by (rule map_cong) (simp_all add: ids)
  then have "map cell_id (cells s') = map cell_id (cells s)"
    unfolding assms(4) by simp
  with assms(1,3,4) show ?thesis unfolding wellFormed_def by metis
qed

lemma reinforce_wellFormed:
  assumes "wellFormed s"
  shows "wellFormed (reinforce s c)"
proof (cases "canReinforce s c")
  case False
  with assms show ?thesis by (simp add: reinforce_def)
next
  case True
  let ?g = "\<lambda>cell. if cell_id cell = c then cell\<lparr>units := Math_min 8 (units cell + 1)\<rparr>
                    else cell"
  from True have cs: "cells (reinforce s c) = map ?g (cells s)"
    by (simp add: reinforce_def Let_def)
  from assms have u: "unitsInRange (cells s)" by (simp add: wellFormed_def)
  have "unitsInRange (map ?g (cells s))"
  proof (rule unitsInRange_map[OF u])
    fix x assume "0 \<le> units x" "units x \<le> 8"
    then show "0 \<le> units (?g x) \<and> units (?g x) \<le> 8"
      by (cases "units x") auto
  qed
  from wellFormed_map[where f = ?g, OF assms _ this cs] show ?thesis by simp
qed

lemma endTurn_wellFormed: "wellFormed s \<Longrightarrow> wellFormed (endTurn s)"
  unfolding wellFormed_def endTurn_def Let_def by auto

text \<open>
  What \<open>move\<close> makes of a count that is not \<open>NaN\<close>, between two cells that hold finite
  numbers: \<open>-Infinity\<close>, or a finite number that is at most either bound.
\<close>

lemma clamp_cases:
  assumes "n \<noteq> Count NaN"
  shows "Math_min_count (Math_min_count n (Num p)) (Num q) = NegInfinity \<or>
         (\<exists>m. Math_min_count (Math_min_count n (Num p)) (Num q) = Count (Num m) \<and>
              m \<le> p \<and> m \<le> q)"
proof (cases n)
  case (Count a)
  with assms obtain r where "a = Num r" by (cases a) auto
  with Count show ?thesis by simp
next
  case Infinity
  then show ?thesis by simp
next
  case NegInfinity
  then show ?thesis by simp
qed

lemma move_wellFormed:
  assumes "wellFormed s" and "n \<noteq> Count NaN"
  shows "wellFormed (move s f t n)"
proof (cases "canMove s f t")
  case False
  with assms show ?thesis by (simp add: move_def)
next
  case True
  then obtain fc tc where
    fc: "find (\<lambda>c. cell_id c = f) (cells s) = Some fc" and
    tc: "find (\<lambda>c. cell_id c = t) (cells s) = Some tc" and
    gt: "\<not> units fc \<le> 1"
    by (auto simp: canMove_def split: if_splits option.splits)
  from assms have d: "distinct (map cell_id (cells s))" and u: "unitsInRange (cells s)"
    by (simp_all add: wellFormed_def)
  from fc tc u have "0 \<le> units fc \<and> units fc \<le> 8" "0 \<le> units tc \<and> units tc \<le> 8"
    by (auto dest!: find_Some_set simp: unitsInRange_def list_all_iff)
  then obtain a b where a: "units fc = Num a" "0 \<le> a" "a \<le> 8"
    and b: "units tc = Num b" "0 \<le> b" "b \<le> 8"
    unfolding inRange_iff by blast
  from gt a have a1: "1 < a" by simp
  let ?final = "Math_min_count (Math_min_count n (units fc - 1)) (8 - units tc)"
  from clamp_cases[OF assms(2), of "a - 1" "8 - b"] a b
  consider "?final = NegInfinity"
    | m where "?final = Count (Num m)" "m \<le> a - 1" "m \<le> 8 - b"
    by auto
  then show ?thesis
  proof cases
    case 1
    with True fc tc assms(1) show ?thesis by (simp add: move_def Let_def)
  next
    case (2 m)
    show ?thesis
    proof (cases "m \<le> 0")
      case True
      with 2 \<open>canMove s f t\<close> fc tc assms(1) show ?thesis by (simp add: move_def Let_def)
    next
      case False
      let ?g = "\<lambda>cell. if cell_id cell = f then cell\<lparr>units := units cell - Num m\<rparr>
                        else if cell_id cell = t then cell\<lparr>units := units cell + Num m\<rparr>
                        else cell"
      from False 2 \<open>canMove s f t\<close> fc tc
      have mv: "cells (move s f t n) = map ?g (cells s)"
        by (simp add: move_def Let_def)
      have "unitsInRange (map ?g (cells s))"
      proof (rule unitsInRange_map[OF u])
        fix c assume c: "c \<in> set (cells s)" and lo: "0 \<le> units c" and hi: "units c \<le> 8"
        from find_distinct_id[OF d c]
        have fnd: "find (\<lambda>x. cell_id x = cell_id c) (cells s) = Some c" .
        show "0 \<le> units (?g c) \<and> units (?g c) \<le> 8"
        proof (cases "cell_id c = f")
          case True
          with fnd fc have "c = fc" by simp
          with True a a1 2 False show ?thesis by simp
        next
          case nf: False
          show ?thesis
          proof (cases "cell_id c = t")
            case True
            with fnd tc have "c = tc" by simp
            with True nf b 2 False show ?thesis by simp
          next
            case False
            with nf lo hi show ?thesis by simp
          qed
        qed
      qed
      from wellFormed_map[where f = ?g, OF assms(1) _ this mv] show ?thesis by simp
    qed
  qed
qed

lemma attack_wellFormed:
  assumes "wellFormed s"
  shows "wellFormed (fst (attack g s f t))"
proof (cases "canAttack s f t")
  case False
  with assms show ?thesis by (simp add: attack_def)
next
  case True
  then obtain fc tc where
    fc: "find (\<lambda>c. cell_id c = f) (cells s) = Some fc" and
    tc: "find (\<lambda>c. cell_id c = t) (cells s) = Some tc"
    by (elim canAttack_cells)
  from assms have u: "unitsInRange (cells s)"
    by (simp_all add: wellFormed_def)
  from fc tc u have "0 \<le> units fc \<and> units fc \<le> 8" "0 \<le> units tc \<and> units tc \<le> 8"
    by (auto dest!: find_Some_set simp: unitsInRange_def list_all_iff)
  then obtain a b where a: "units fc = Num a" "0 \<le> a" "a \<le> 8"
    and b: "units tc = Num b" "0 \<le> b" "b \<le> 8"
    unfolding inRange_iff by blast
  let ?cap = "\<lambda>cell. if cell_id cell = f
                then cell\<lparr>units := (if units fc \<ge> 2 then 1 else 0)\<rparr>
              else if cell_id cell = t
                then cell\<lparr>owner := current s,
                          units := (if units fc \<ge> 2 then units fc - 1 else units fc)\<rparr>
              else cell"
  let ?loss = "\<lambda>cell. if cell_id cell = f then cell\<lparr>owner := owner tc\<rparr>
              else if cell_id cell = t \<and> units tc > 0
                then cell\<lparr>units := Math_min 8 (units tc + 1)\<rparr>
              else cell"
  have capok: "unitsInRange (map ?cap (cells s))"
    using a by (intro unitsInRange_map[OF u]) auto
  have lossok: "unitsInRange (map ?loss (cells s))"
    using b by (intro unitsInRange_map[OF u]) auto
  show ?thesis
  proof (cases "units tc = 0")
    case True
    from attack_capture_path[OF \<open>canAttack s f t\<close> fc tc True, of g]
    have "cells (fst (attack g s f t)) = map ?cap (cells s)" by simp
    from wellFormed_map[where f = ?cap, OF assms _ capok this] show ?thesis by simp
  next
    case False
    obtain s' dice g' where att: "attack g s f t = (s', dice, g')"
      by (cases "attack g s f t")
    note r = attack_dice_result[OF \<open>canAttack s f t\<close> fc tc False att]
    show ?thesis
    proof (cases "attackerWins dice")
      case True
      from r(3)[OF True] att have "cells (fst (attack g s f t)) = map ?cap (cells s)" by simp
      from wellFormed_map[where f = ?cap, OF assms _ capok this] show ?thesis by simp
    next
      case False
      from r(4)[OF False] att have "cells (fst (attack g s f t)) = map ?loss (cells s)" by simp
      from wellFormed_map[where f = ?loss, OF assms _ lossok this] show ?thesis by simp
    qed
  qed
qed

lemma newGame_wellFormed:
  assumes "newGame pc goal landHexes g = Some (Inr s)"
  shows "wellFormed s"
proof -
  from assms obtain cs g' where
    sp: "splitTerritory (generateCells landHexes) \<lparr>playerCount = pc, minTerritorySize = 8\<rparr> g
           = Some (Inr (cs, g'))" and s: "cells s = cs"
    by (auto simp: newGame_def Let_def split: option.splits sum.splits)
  from splitTerritory_inv[OF sp] generateCells_inv[of landHexes] s show ?thesis
    by (simp add: wellFormed_def wholeUnits_inRange)
qed

text \<open>
  Every entry point but \<open>move\<close> keeps the units between 0 and 8, and so does \<open>move\<close>
  with a unit count that is not \<open>NaN\<close>, a fraction or an infinity included.
\<close>

lemma guarded_wellFormed: "guarded s \<Longrightarrow> wellFormed s"
  by (induction rule: guarded.induct)
     (auto intro: newGame_wellFormed reinforce_wellFormed attack_wellFormed
                  move_wellFormed endTurn_wellFormed)

lemma guarded_units_in_range:
  "guarded s \<Longrightarrow> list_all (\<lambda>c. 0 \<le> units c \<and> units c \<le> 8) (cells s)"
  using guarded_wellFormed[of s] by (simp add: wellFormed_def unitsInRange_def)

lemma guarded_reachable: "guarded s \<Longrightarrow> reachable s"
  by (induction rule: guarded.induct) (auto intro: reachable.intros)

lemma newGame16_runs:
  "\<exists>s. newGame Two 5 land16 eighths = Some (Inr s)"
proof -
  have "(case newGame Two 5 land16 eighths of Some (Inr s) \<Rightarrow> True | _ \<Rightarrow> False)"
    by code_simp
  then show ?thesis by (auto split: option.splits sum.splits)
qed

text \<open>
  Claim C4. The bound does not hold after \<open>move\<close> with the count \<open>NaN\<close> (or with no
  count at all): whenever \<open>canMove\<close> holds, the clamped amount is \<open>NaN\<close>, the test
  \<open>finalMove <= 0\<close> is false, and every cell with the id of the \<open>from\<close> or of the
  \<open>to\<close> cell is written with \<open>NaN\<close> units, which is not a number between 0 and 8. The
  returned state is reachable when the state before the move is.

  The instance below starts a game on the sixteen-hex landmass, where the splitter
  deals four units to every cell; player 0 reinforces cell 0, which opens the attack
  phase, and moves from cell 0 to cell 2 with the count \<open>NaN\<close>. Before the move every
  cell holds between 0 and 8 units, the two cells 5 and 4.
\<close>

theorem move_NaN_units:
  assumes "canMove s f t"
  shows "cells (move s f t (Count NaN))
           = map (\<lambda>cell. if cell_id cell = f \<or> cell_id cell = t
                          then cell\<lparr>units := NaN\<rparr> else cell) (cells s) \<and>
         \<not> list_all (\<lambda>c. 0 \<le> units c \<and> units c \<le> 8) (cells (move s f t (Count NaN))) \<and>
         (reachable s \<longrightarrow> reachable (move s f t (Count NaN)))"
proof -
  from assms obtain fc tc where
    fc: "find (\<lambda>c. cell_id c = f) (cells s) = Some fc" and
    tc: "find (\<lambda>c. cell_id c = t) (cells s) = Some tc"
    by (auto simp: canMove_def split: if_splits option.splits)
  have n: "u - NaN = NaN" "u + NaN = NaN" for u :: number
    by (cases u; simp)+
  from assms fc tc have cs: "cells (move s f t (Count NaN))
           = map (\<lambda>cell. if cell_id cell = f \<or> cell_id cell = t
                          then cell\<lparr>units := NaN\<rparr> else cell) (cells s)"
    by (auto simp: move_def Let_def n)
  from fc have "fc \<in> set (cells s)" "cell_id fc = f" by (auto dest: find_Some_set)
  then have "fc\<lparr>units := NaN\<rparr> \<in> set (cells (move s f t (Count NaN)))"
    unfolding cs by force
  then have "\<not> list_all (\<lambda>c. 0 \<le> units c \<and> units c \<le> 8) (cells (move s f t (Count NaN)))"
    by (auto simp: list_all_iff intro!: bexI[of _ "fc\<lparr>units := NaN\<rparr>"])
  with cs show ?thesis by (auto intro: reachable.after_move)
qed

theorem move_NaN_units_witness:
  "\<exists>s. newGame Two 5 land16 eighths = Some (Inr s) \<and>
       canMove (reinforce s 0) 0 2 \<and>
       list_all (\<lambda>c. 0 \<le> units c \<and> units c \<le> 8) (cells (reinforce s 0)) \<and>
       map (\<lambda>c. (cell_id c, units c))
           (filter (\<lambda>c. cell_id c = 0 \<or> cell_id c = 2) (cells (reinforce s 0)))
         = [(0, 5), (2, 4)] \<and>
       reachable (move (reinforce s 0) 0 2 (Count NaN)) \<and>
       map (\<lambda>c. (cell_id c, units c))
           (filter (\<lambda>c. cell_id c = 0 \<or> cell_id c = 2)
                   (cells (move (reinforce s 0) 0 2 (Count NaN))))
         = [(0, NaN), (2, NaN)] \<and>
       \<not> list_all (\<lambda>c. 0 \<le> units c \<and> units c \<le> 8)
                   (cells (move (reinforce s 0) 0 2 (Count NaN)))"
proof -
  let ?P = "\<lambda>c. cell_id c = 0 \<or> cell_id c = (2 :: int)"
  have "(case newGame Two 5 land16 eighths of
           Some (Inr s) \<Rightarrow> canMove (reinforce s 0) 0 2 \<and>
             map (\<lambda>c. (cell_id c, units c)) (filter ?P (cells (reinforce s 0)))
               = [(0, 5), (2, 4)]
         | _ \<Rightarrow> False)"
    by code_simp
  then obtain s where s: "newGame Two 5 land16 eighths = Some (Inr s)"
    and cm: "canMove (reinforce s 0) 0 2"
    and before: "map (\<lambda>c. (cell_id c, units c)) (filter ?P (cells (reinforce s 0)))
                   = [(0, 5), (2, 4)]"
    by (auto split: option.splits sum.splits)
  from s have g: "guarded (reinforce s 0)"
    by (intro guarded.after_reinforce guarded.start)
  note m = move_NaN_units [OF cm]
  from m have cs: "cells (move (reinforce s 0) 0 2 (Count NaN))
           = map (\<lambda>cell. if ?P cell then cell\<lparr>units := NaN\<rparr> else cell) (cells (reinforce s 0))"
    by blast
  have gen: "map (\<lambda>c. (cell_id c, units c))
            (filter ?P (map (\<lambda>cell. if ?P cell then cell\<lparr>units := NaN\<rparr> else cell) xs))
          = map (\<lambda>(i, u). (i, NaN)) (map (\<lambda>c. (cell_id c, units c)) (filter ?P xs))"
    for xs :: "Cell list"
    by (induction xs) auto
  have "map (\<lambda>c. (cell_id c, units c))
            (filter ?P (cells (move (reinforce s 0) 0 2 (Count NaN))))
          = map (\<lambda>(i, u). (i, NaN))
                (map (\<lambda>c. (cell_id c, units c)) (filter ?P (cells (reinforce s 0))))"
    unfolding cs by (rule gen)
  also have "\<dots> = map (\<lambda>(i, u). (i, NaN)) [(0 :: int, 5 :: number), (2, 4)]"
    by (simp only: before)
  also have "\<dots> = [(0, NaN), (2, NaN)]" by simp
  finally have after: "map (\<lambda>c. (cell_id c, units c))
                         (filter ?P (cells (move (reinforce s 0) 0 2 (Count NaN))))
                       = [(0, NaN), (2, NaN)]" .
  from m guarded_reachable[OF g]
  have r: "reachable (move (reinforce s 0) 0 2 (Count NaN))" by blast
  from m
  have out: "\<not> list_all (\<lambda>c. 0 \<le> units c \<and> units c \<le> 8)
                         (cells (move (reinforce s 0) 0 2 (Count NaN)))" by blast
  show ?thesis
    by (rule exI[of _ s])
       (intro conjI s cm guarded_units_in_range[OF g] before r after out)
qed

section \<open>Connectivity\<close>

lemma hexAdj_rtrancl_in: "(a, b) \<in> (hexAdj S)\<^sup>* \<Longrightarrow> a \<in> S \<Longrightarrow> b \<in> S"
  by (induction rule: rtrancl_induct) (auto simp: hexAdj_def)

lemma getNeighbors_sym: "b \<in> set (getNeighbors a) \<Longrightarrow> a \<in> set (getNeighbors b)"
  by (cases a; cases b) (auto simp: getNeighbors_def HEX_DIRECTIONS_def hex_add_def)

lemma sym_hexAdj: "sym (hexAdj S)"
  by (auto simp: sym_def hexAdj_def dest: getNeighbors_sym)

lemma componentsOf_connected:
  assumes "S \<noteq> {}" "connectedHexes S"
  shows "componentsOf S = {S}"
proof -
  have "{b. (a, b) \<in> (hexAdj S)\<^sup>*} = S" if "a \<in> S" for a
    using that assms(2) by (auto simp: connectedHexes_def dest: hexAdj_rtrancl_in)
  with assms(1) show ?thesis by (auto simp: componentsOf_def)
qed

lemma connected_from_root:
  assumes "\<And>b. b \<in> S \<Longrightarrow> (x, b) \<in> (hexAdj S)\<^sup>*"
  shows "connectedHexes S"
  unfolding connectedHexes_def
proof (clarify)
  fix a1 a2 b1 b2 assume ab: "(a1, a2) \<in> S" "(b1, b2) \<in> S"
  from assms ab have "(x, (a1, a2)) \<in> (hexAdj S)\<^sup>*" "(x, (b1, b2)) \<in> (hexAdj S)\<^sup>*" by auto
  moreover from sym_hexAdj have "sym ((hexAdj S)\<^sup>*)" by (rule sym_rtrancl)
  ultimately show "((a1, a2), (b1, b2)) \<in> (hexAdj S)\<^sup>*" by (meson symD rtrancl_trans)
qed

lemma isolated_not_connected:
  assumes "a \<in> S" "b \<in> S" "a \<noteq> b" "list_all (\<lambda>n. n \<notin> S) (getNeighbors a)"
  shows "\<not> connectedHexes S"
proof
  assume "connectedHexes S"
  with assms(1,2) have "(a, b) \<in> (hexAdj S)\<^sup>*" by (auto simp: connectedHexes_def)
  with assms(3) obtain c where "(a, c) \<in> hexAdj S" by (auto elim: converse_rtranclE)
  with assms(4) show False by (auto simp: hexAdj_def list_all_iff)
qed

section \<open>Flood fill\<close>

lemma hexAdj_mono: "S \<subseteq> T \<Longrightarrow> (hexAdj S)\<^sup>* \<subseteq> (hexAdj T)\<^sup>*"
  by (rule rtrancl_mono) (auto simp: hexAdj_def)

lemma visitNeighbors_queue:
  "visitNeighbors hexSet ns queue visited = (queue', visited') \<Longrightarrow>
     \<exists>new. queue' = queue @ new \<and> set new \<subseteq> set ns"
proof (induction hexSet ns queue visited rule: visitNeighbors.induct)
  case (1 hexSet queue visited)
  then show ?case by simp
next
  case (2 hexSet neighbor rest queue visited)
  show ?case
  proof (cases "neighbor \<notin> visited \<and> neighbor \<in> set hexSet")
    case True
    with 2 obtain new where "queue' = (queue @ [neighbor]) @ new" "set new \<subseteq> set rest"
      by auto
    then have "queue' = queue @ (neighbor # new)" "set (neighbor # new) \<subseteq> set (neighbor # rest)"
      by auto
    then show ?thesis by blast
  next
    case False
    with 2 obtain new where "queue' = queue @ new" "set new \<subseteq> set rest" by auto
    then show ?thesis by auto
  qed
qed

lemma bfs_keeps:
  "bfs hexSet queue visited component = (component', visited') \<Longrightarrow>
     set queue \<union> set component \<subseteq> set component'"
proof (induction hexSet queue visited component rule: bfs.induct)
  case (1 hexSet visited component)
  then show ?case by simp
next
  case (2 hexSet cur queue visited component)
  obtain q1 v1 where vn: "visitNeighbors hexSet (getNeighbors cur) queue visited = (q1, v1)"
    by (cases "visitNeighbors hexSet (getNeighbors cur) queue visited")
  with 2 have "set q1 \<union> set (component @ [cur]) \<subseteq> set component'" by simp
  moreover from visitNeighbors_queue[OF vn] have "set queue \<subseteq> set q1" by auto
  ultimately show ?case by auto
qed

lemma bfs_reachable:
  assumes "bfs hexSet queue visited component = (component', visited')"
    and "\<And>y. y \<in> set queue \<union> set component \<Longrightarrow>
            (x, y) \<in> (hexAdj (set queue \<union> set component))\<^sup>*"
  shows "y \<in> set component' \<Longrightarrow> (x, y) \<in> (hexAdj (set component'))\<^sup>*"
  using assms
proof (induction hexSet queue visited component arbitrary: y rule: bfs.induct)
  case (1 hexSet visited component)
  then show ?case by simp
next
  case (2 hexSet cur queue visited component)
  obtain q1 v1 where vn: "visitNeighbors hexSet (getNeighbors cur) queue visited = (q1, v1)"
    by (cases "visitNeighbors hexSet (getNeighbors cur) queue visited")
  from visitNeighbors_queue[OF vn] obtain new where
    q1: "q1 = queue @ new" and new: "set new \<subseteq> set (getNeighbors cur)" by blast
  let ?S = "set (cur # queue) \<union> set component"
  let ?S' = "set q1 \<union> set (component @ [cur])"
  have sub: "?S \<subseteq> ?S'" unfolding q1 by auto
  from vn 2(3) have run: "bfs hexSet q1 v1 (component @ [cur]) = (component', visited')"
    by simp
  have inv: "(x, z) \<in> (hexAdj ?S')\<^sup>*" if z: "z \<in> ?S'" for z
  proof (cases "z \<in> ?S")
    case True
    from 2(4)[OF True] hexAdj_mono[OF sub] show ?thesis by blast
  next
    case False
    with z have zn: "z \<in> set new" unfolding q1 by auto
    with new have "z \<in> set (getNeighbors cur)" by blast
    moreover have "cur \<in> ?S'" by simp
    ultimately have "(cur, z) \<in> hexAdj ?S'" using z by (simp add: hexAdj_def)
    moreover have "(x, cur) \<in> (hexAdj ?S')\<^sup>*"
      using 2(4)[of cur] hexAdj_mono[OF sub] by auto
    ultimately show ?thesis by (rule rtrancl_into_rtrancl[rotated])
  qed
  from 2(1)[OF vn[symmetric] 2(2) run inv] show ?case .
qed

lemma floodFill_connected:
  assumes "floodFill start hexSet visited = (component, visited')"
  shows "connectedHexes (set component)"
proof (cases "start \<in> visited")
  case True
  with assms show ?thesis by (simp add: floodFill_def connectedHexes_def)
next
  case False
  with assms have run: "bfs hexSet [start] (insert start visited) [] = (component, visited')"
    by (simp add: floodFill_def)
  show ?thesis
  proof (rule connected_from_root[where x = start])
    fix b assume "b \<in> set component"
    with bfs_reachable[OF run, of start b] show "(start, b) \<in> (hexAdj (set component))\<^sup>*"
      by simp
  qed
qed

lemma floodFill_nonempty:
  assumes "floodFill start hexSet visited = (component, visited')" "start \<notin> visited"
  shows "component \<noteq> []"
proof -
  from assms have run: "bfs hexSet [start] (insert start visited) [] = (component, visited')"
    by (simp add: floodFill_def)
  from bfs_keeps[OF run] show ?thesis by auto
qed

lemma largestLoop_connected:
  assumes "connectedHexes (set largest)"
  shows "connectedHexes (set (largestLoop hexSet hexes visited largest))"
  using assms
proof (induction hexSet hexes visited largest rule: largestLoop.induct)
  case (1 hexSet visited largestComponent)
  then show ?case by simp
next
  case (2 hexSet hex rest visited largestComponent)
  show ?case
  proof (cases "hex \<in> visited")
    case True
    with 2 show ?thesis by simp
  next
    case False
    obtain component v1 where ff: "floodFill hex hexSet visited = (component, v1)"
      by (cases "floodFill hex hexSet visited")
    from floodFill_connected[OF ff] 2(3)
    have "connectedHexes (set (if length component > length largestComponent
                                then component else largestComponent))" by simp
    from 2(2)[OF False ff[symmetric] this] False ff show ?thesis by simp
  qed
qed

lemma largestLoop_length:
  "length largest \<le> length (largestLoop hexSet hexes visited largest)"
proof (induction hexSet hexes visited largest rule: largestLoop.induct)
  case (1 hexSet visited largestComponent)
  then show ?case by simp
next
  case (2 hexSet hex rest visited largestComponent)
  show ?case
  proof (cases "hex \<in> visited")
    case True
    with 2 show ?thesis by simp
  next
    case False
    obtain component v1 where ff: "floodFill hex hexSet visited = (component, v1)"
      by (cases "floodFill hex hexSet visited")
    from 2(2)[OF False ff[symmetric]] False ff show ?thesis
      by (auto split: if_splits)
  qed
qed

lemma getLargestComponent_connected: "connectedHexes (set (getLargestComponent hexes))"
proof -
  have e: "connectedHexes (set [])" by (simp add: connectedHexes_def)
  from largestLoop_connected[OF e] e show ?thesis
    by (simp add: getLargestComponent_def)
qed

lemma getLargestComponent_nonempty:
  assumes "hexes \<noteq> []"
  shows "getLargestComponent hexes \<noteq> []"
proof -
  from assms obtain h rest where hs: "hexes = h # rest" by (cases hexes) auto
  obtain component v1 where ff: "floodFill h hexes {} = (component, v1)"
    by (cases "floodFill h hexes {}")
  from floodFill_nonempty[OF ff] have ne: "component \<noteq> []" by simp
  have "getLargestComponent hexes = largestLoop hexes rest v1 component"
    using ff ne unfolding getLargestComponent_def hs by simp
  with largestLoop_length[of component hexes rest v1] ne show ?thesis by auto
qed

lemma land16_connected: "connectedHexes (set land16)"
proof -
  have "getLargestComponent land16 = land16" by code_simp
  with getLargestComponent_connected[of land16] show ?thesis by simp
qed

section \<open>Components found by the flood fill\<close>

text \<open>
  The flood fill is exact: started at an unvisited hex of \<open>hexSet\<close>, with a visited set
  that is closed under adjacency, it lists every hex reachable from the start once,
  and nothing else. So \<open>getLargestComponent\<close> returns a whole component of its input,
  and the outer loop of \<open>getConnectedComponents\<close> returns one array per component.
\<close>

lemma visitNeighbors_exact:
  "visitNeighbors hexSet ns queue visited = (queue', visited') \<Longrightarrow>
     \<exists>new. queue' = queue @ new \<and> visited' = visited \<union> set new \<and> distinct new \<and>
           set new = {n \<in> set ns. n \<in> set hexSet \<and> n \<notin> visited}"
proof (induction hexSet ns queue visited rule: visitNeighbors.induct)
  case (1 hexSet queue visited)
  then show ?case by simp
next
  case (2 hexSet neighbor rest queue visited)
  show ?case
  proof (cases "neighbor \<notin> visited \<and> neighbor \<in> set hexSet")
    case True
    with 2 obtain new where n: "queue' = (queue @ [neighbor]) @ new"
      "visited' = insert neighbor visited \<union> set new" "distinct new"
      "set new = {n \<in> set rest. n \<in> set hexSet \<and> n \<notin> insert neighbor visited}"
      by auto
    let ?new = "neighbor # new"
    from n True have "queue' = queue @ ?new" "visited' = visited \<union> set ?new" "distinct ?new"
      "set ?new = {n \<in> set (neighbor # rest). n \<in> set hexSet \<and> n \<notin> visited}"
      by auto
    then show ?thesis by blast
  next
    case False
    with 2 obtain new where n: "queue' = queue @ new"
      "visited' = visited \<union> set new" "distinct new"
      "set new = {n \<in> set rest. n \<in> set hexSet \<and> n \<notin> visited}"
      by auto
    with False have "set new = {n \<in> set (neighbor # rest). n \<in> set hexSet \<and> n \<notin> visited}"
      by auto
    with n show ?thesis by blast
  qed
qed

lemma bfs_exact:
  assumes "bfs hexSet queue visited component = (component', visited')"
    and "distinct (component @ queue)"
    and "set component \<union> set queue \<subseteq> visited"
    and "\<forall>a\<in>set component. \<forall>n\<in>set (getNeighbors a). n \<in> set hexSet \<longrightarrow> n \<in> visited"
  shows "distinct component' \<and>
         set component' = set component \<union> set queue \<union> (visited' - visited) \<and>
         visited \<subseteq> visited' \<and> visited' \<subseteq> visited \<union> set hexSet \<and>
         (\<forall>a\<in>set component'. \<forall>n\<in>set (getNeighbors a). n \<in> set hexSet \<longrightarrow> n \<in> visited')"
  using assms
proof (induction hexSet queue visited component rule: bfs.induct)
  case (1 hexSet visited component)
  then show ?case by auto
next
  case (2 hexSet cur queue visited component)
  obtain q1 v1 where vn: "visitNeighbors hexSet (getNeighbors cur) queue visited = (q1, v1)"
    by (cases "visitNeighbors hexSet (getNeighbors cur) queue visited")
  from visitNeighbors_exact[OF vn] obtain new where
    q1: "q1 = queue @ new" and v1: "v1 = visited \<union> set new" and dn: "distinct new" and
    new: "set new = {n \<in> set (getNeighbors cur). n \<in> set hexSet \<and> n \<notin> visited}" by blast
  from vn 2(2) have run: "bfs hexSet q1 v1 (component @ [cur]) = (component', visited')"
    by simp
  have d: "distinct ((component @ [cur]) @ q1)"
    using 2(3,4) dn new unfolding q1 by auto
  have s: "set (component @ [cur]) \<union> set q1 \<subseteq> v1"
    using 2(4) unfolding q1 v1 by auto
  have c: "\<forall>a\<in>set (component @ [cur]). \<forall>n\<in>set (getNeighbors a). n \<in> set hexSet \<longrightarrow> n \<in> v1"
    using 2(5) new unfolding v1 by auto
  from 2(1)[OF vn[symmetric] run d s c]
  have ih: "distinct component'"
    "set component' = set (component @ [cur]) \<union> set q1 \<union> (visited' - v1)"
    "v1 \<subseteq> visited'" "visited' \<subseteq> v1 \<union> set hexSet"
    "\<forall>a\<in>set component'. \<forall>n\<in>set (getNeighbors a). n \<in> set hexSet \<longrightarrow> n \<in> visited'"
    by auto
  have "set component' = set component \<union> set (cur # queue) \<union> (visited' - visited)"
    using ih(2,3) new unfolding q1 v1 by auto
  moreover have "visited \<subseteq> visited'" using ih(3) unfolding v1 by auto
  moreover have "visited' \<subseteq> visited \<union> set hexSet" using ih(4) new unfolding v1 by auto
  ultimately show ?case using ih(1,5) by blast
qed


lemma bfs_component:
  assumes run: "bfs hexSet [x] (insert x V) [] = (c, V')"
    and x: "x \<in> set hexSet" "x \<notin> V"
    and V: "V \<subseteq> set hexSet"
    and closed: "\<forall>a\<in>V. \<forall>n\<in>set (getNeighbors a). n \<in> set hexSet \<longrightarrow> n \<in> V"
  shows "distinct c \<and> set c = {b. (x, b) \<in> (hexAdj (set hexSet))\<^sup>*} \<and>
         V' = V \<union> set c \<and> set c \<inter> V = {}"
proof -
  from bfs_exact[OF run] have
    d: "distinct c" and sc: "set c = {x} \<union> (V' - insert x V)" and
    sub: "insert x V \<subseteq> V'" "V' \<subseteq> insert x V \<union> set hexSet" and
    cl: "\<forall>a\<in>set c. \<forall>n\<in>set (getNeighbors a). n \<in> set hexSet \<longrightarrow> n \<in> V'"
    by auto
  from sc sub x have V': "V' = V \<union> set c" and dj: "set c \<inter> V = {}" and cH: "set c \<subseteq> set hexSet"
    by auto
  have "(x, b) \<in> (hexAdj (set hexSet))\<^sup>*" if "b \<in> set c" for b
    using bfs_reachable[OF run, of x b] that hexAdj_mono[OF cH] by auto
  moreover have "b \<in> set c" if "(x, b) \<in> (hexAdj (set hexSet))\<^sup>*" for b
    using that
  proof (induction rule: rtrancl_induct)
    case base
    from sc show ?case by simp
  next
    case (step y z)
    from step(2) have yz: "y \<in> set hexSet" "z \<in> set hexSet" "z \<in> set (getNeighbors y)"
      by (auto simp: hexAdj_def)
    with cl step(3) have "z \<in> V'" by blast
    moreover have "z \<notin> V"
    proof
      assume "z \<in> V"
      with closed yz getNeighbors_sym[OF yz(3)] have "y \<in> V" by blast
      with dj step(3) show False by blast
    qed
    ultimately show ?case using V' by blast
  qed
  ultimately have "set c = {b. (x, b) \<in> (hexAdj (set hexSet))\<^sup>*}" by blast
  with d V' dj show ?thesis by blast
qed


lemma component_eq:
  assumes "(a, b) \<in> (hexAdj S)\<^sup>*"
  shows "{c. (a, c) \<in> (hexAdj S)\<^sup>*} = {c. (b, c) \<in> (hexAdj S)\<^sup>*}"
proof -
  from sym_hexAdj have "sym ((hexAdj S)\<^sup>*)" by (rule sym_rtrancl)
  with assms have "(b, a) \<in> (hexAdj S)\<^sup>*" by (meson symD)
  with assms show ?thesis by (auto intro: rtrancl_trans)
qed

lemma closed_component:
  assumes "\<forall>a\<in>V. \<forall>n\<in>set (getNeighbors a). n \<in> S \<longrightarrow> n \<in> V"
    and "(a, b) \<in> (hexAdj S)\<^sup>*" and "a \<in> V"
  shows "b \<in> V"
  using assms(2,3,1) by (induction rule: rtrancl_induct) (auto simp: hexAdj_def)

lemma bfs_component_closed:
  assumes run: "bfs hexSet [x] (insert x V) [] = (c, V')"
    and x: "x \<in> set hexSet" "x \<notin> V"
    and V: "V \<subseteq> set hexSet"
    and closed: "\<forall>a\<in>V. \<forall>n\<in>set (getNeighbors a). n \<in> set hexSet \<longrightarrow> n \<in> V"
  shows "V' \<subseteq> set hexSet \<and>
         (\<forall>a\<in>V'. \<forall>n\<in>set (getNeighbors a). n \<in> set hexSet \<longrightarrow> n \<in> V')"
proof -
  from bfs_component[OF run x V closed] have
    sc: "set c = {b. (x, b) \<in> (hexAdj (set hexSet))\<^sup>*}" and V': "V' = V \<union> set c" by auto
  have cH: "set c \<subseteq> set hexSet"
    using sc x(1) by (auto dest: hexAdj_rtrancl_in)
  have "n \<in> V'" if a: "a \<in> V'" and n: "n \<in> set (getNeighbors a)" "n \<in> set hexSet" for a n
  proof (cases "a \<in> V")
    case True
    with closed n show ?thesis unfolding V' by blast
  next
    case False
    with a have ac: "a \<in> set c" unfolding V' by simp
    with cH n have "(a, n) \<in> hexAdj (set hexSet)" by (auto simp: hexAdj_def)
    with ac sc have "n \<in> set c" by (auto intro: rtrancl_into_rtrancl)
    then show ?thesis unfolding V' by simp
  qed
  with cH V show ?thesis unfolding V' by blast
qed

lemma largestLoop_component:
  assumes "set hexes \<subseteq> set hexSet"
    and "visited \<subseteq> set hexSet"
    and "\<forall>a\<in>visited. \<forall>n\<in>set (getNeighbors a). n \<in> set hexSet \<longrightarrow> n \<in> visited"
    and "largest = [] \<or> set largest \<in> componentsOf (set hexSet)"
  shows "largestLoop hexSet hexes visited largest = [] \<or>
         set (largestLoop hexSet hexes visited largest) \<in> componentsOf (set hexSet)"
  using assms
proof (induction hexSet hexes visited largest rule: largestLoop.induct)
  case (1 hexSet visited largestComponent)
  then show ?case by simp
next
  case (2 hexSet hex rest visited largestComponent)
  from 2(3) have rest: "set rest \<subseteq> set hexSet" and hH: "hex \<in> set hexSet" by auto
  show ?case
  proof (cases "hex \<in> visited")
    case True
    from 2(1)[OF True rest 2(4) 2(5) 2(6)] True show ?thesis by simp
  next
    case False
    obtain c V' where ff: "floodFill hex hexSet visited = (c, V')"
      by (cases "floodFill hex hexSet visited")
    with False have run: "bfs hexSet [hex] (insert hex visited) [] = (c, V')"
      by (simp add: floodFill_def)
    from bfs_component[OF run hH False 2(4) 2(5)] hH
    have cc: "set c \<in> componentsOf (set hexSet)" by (auto simp: componentsOf_def)
    from bfs_component_closed[OF run hH False 2(4) 2(5)] have
      sub: "V' \<subseteq> set hexSet" and
      closed: "\<forall>a\<in>V'. \<forall>n\<in>set (getNeighbors a). n \<in> set hexSet \<longrightarrow> n \<in> V'" by auto
    let ?l = "if length c > length largestComponent then c else largestComponent"
    from cc 2(6) have l: "?l = [] \<or> set ?l \<in> componentsOf (set hexSet)" by auto
    from 2(2)[OF False ff[symmetric] rest sub closed l] False ff show ?thesis by simp
  qed
qed

lemma getLargestComponent_component:
  assumes "hexes \<noteq> []"
  shows "set (getLargestComponent hexes) \<in> componentsOf (set hexes)"
proof -
  have "largestLoop hexes hexes {} [] = [] \<or>
        set (largestLoop hexes hexes {} []) \<in> componentsOf (set hexes)"
    by (rule largestLoop_component) auto
  with assms getLargestComponent_nonempty[OF assms] show ?thesis
    by (simp add: getLargestComponent_def)
qed

lemma componentsLoop_exact:
  assumes "\<forall>h\<in>set hexes. ownedBy h \<longleftrightarrow> h \<in> set hexSet"
    and "visited \<subseteq> set hexSet"
    and "\<forall>a\<in>visited. \<forall>n\<in>set (getNeighbors a). n \<in> set hexSet \<longrightarrow> n \<in> visited"
    and "set hexSet \<subseteq> visited \<union> set hexes"
    and "set ` set components = (\<lambda>a. {b. (a, b) \<in> (hexAdj (set hexSet))\<^sup>*}) ` visited"
    and "distinct (map set components)"
  shows "distinct (map set (componentsLoop ownedBy hexSet hexes visited components)) \<and>
         set ` set (componentsLoop ownedBy hexSet hexes visited components)
           = componentsOf (set hexSet)"
  using assms
proof (induction ownedBy hexSet hexes visited components rule: componentsLoop.induct)
  case (1 ownedBy hexSet visited components)
  then have "visited = set hexSet" by auto
  with 1 show ?case by (simp add: componentsOf_def)
next
  case (2 ownedBy hexSet hex rest visited components)
  let ?comp = "\<lambda>a. {b. (a, b) \<in> (hexAdj (set hexSet))\<^sup>*}"
  show ?case
  proof (cases "ownedBy hex \<and> hex \<notin> visited")
    case False
    then have skip: "componentsLoop ownedBy hexSet (hex # rest) visited components
                     = componentsLoop ownedBy hexSet rest visited components" by auto
    from 2(4) have own: "\<forall>h\<in>set rest. ownedBy h \<longleftrightarrow> h \<in> set hexSet" by simp
    from False 2(4,7) have cover: "set hexSet \<subseteq> visited \<union> set rest" by auto
    show ?thesis
    proof (cases "ownedBy hex")
      case True
      with False have "hex \<in> visited" by simp
      from 2(2)[OF _ this own 2(5) 2(6) cover 2(8) 2(9)] True skip show ?thesis by simp
    next
      case False
      from 2(1)[OF False own 2(5) 2(6) cover 2(8) 2(9)] skip show ?thesis by simp
    qed
  next
    case True
    then have ob: "ownedBy hex" and nv: "hex \<notin> visited" by auto
    from ob 2(4) have hH: "hex \<in> set hexSet" by simp
    obtain c V' where run: "bfs hexSet [hex] (insert hex visited) [] = (c, V')"
      by (cases "bfs hexSet [hex] (insert hex visited) []")
    from bfs_component[OF run hH nv 2(5) 2(6)] have
      d: "distinct c" and sc: "set c = ?comp hex" and V': "V' = visited \<union> set c" and
      dj: "set c \<inter> visited = {}" by auto
    from sc have hc: "hex \<in> set c" by simp
    then have ne: "length c > 0" by auto
    have step: "componentsLoop ownedBy hexSet (hex # rest) visited components
                = componentsLoop ownedBy hexSet rest V' (components @ [c])"
      using ob nv run ne by simp
    from 2(4) have own: "\<forall>h\<in>set rest. ownedBy h \<longleftrightarrow> h \<in> set hexSet" by simp
    have cH: "set c \<subseteq> set hexSet"
      using sc hH by (auto dest: hexAdj_rtrancl_in)
    with 2(5) have sub: "V' \<subseteq> set hexSet" unfolding V' by simp
    have closed: "\<forall>a\<in>V'. \<forall>n\<in>set (getNeighbors a). n \<in> set hexSet \<longrightarrow> n \<in> V'"
    proof (intro ballI impI)
      fix a n assume a: "a \<in> V'" and n: "n \<in> set (getNeighbors a)" "n \<in> set hexSet"
      show "n \<in> V'"
      proof (cases "a \<in> visited")
        case True
        with 2(6) n show ?thesis unfolding V' by blast
      next
        case False
        with a have ac: "a \<in> set c" unfolding V' by simp
        with cH n have "(a, n) \<in> hexAdj (set hexSet)" by (auto simp: hexAdj_def)
        with ac sc have "n \<in> set c" by (auto intro: rtrancl_into_rtrancl)
        then show ?thesis unfolding V' by simp
      qed
    qed
    have cover: "set hexSet \<subseteq> V' \<union> set rest"
      using 2(7) hc unfolding V' by auto
    have "?comp ` set c = {set c}"
    proof -
      have "?comp b = set c" if "b \<in> set c" for b
        using that sc component_eq[of hex b "set hexSet"] by auto
      with hc show ?thesis by auto
    qed
    then have comps: "set ` set (components @ [c]) = ?comp ` V'"
      using 2(8) unfolding V' by (simp add: image_Un)
    have "set c \<notin> set ` set components"
    proof
      assume "set c \<in> set ` set components"
      with 2(8) obtain a where a: "a \<in> visited" "set c = ?comp a" by auto
      with hc have "(a, hex) \<in> (hexAdj (set hexSet))\<^sup>*" by simp
      from closed_component[OF 2(6) this a(1)] nv show False by simp
    qed
    with 2(9) have dist: "distinct (map set (components @ [c]))" by simp
    from 2(3)[OF _ _ run[symmetric] own sub closed cover] ob nv ne comps dist step
    show ?thesis by simp
  qed
qed


lemma getConnectedComponents_length:
  "length (getConnectedComponents hexes ownedBy)
     = card (componentsOf (set (filter ownedBy hexes)))"
proof -
  let ?cs = "getConnectedComponents hexes ownedBy"
  have "distinct (map set ?cs) \<and> set ` set ?cs = componentsOf (set (filter ownedBy hexes))"
    unfolding getConnectedComponents_def
    by (rule componentsLoop_exact) auto
  then have c: "card (componentsOf (set (filter ownedBy hexes))) = card (set (map set ?cs))"
    and d: "distinct (map set ?cs)" by simp_all
  from distinct_card[OF d] have "card (set (map set ?cs)) = length ?cs" by simp
  with c show ?thesis by simp
qed

section \<open>Exclave detection\<close>

text \<open>
  \<open>detectExclaves\<close> drops one array, the one the fold over the lengths selects, so it
  returns as many arrays as the player has components beyond the first.
\<close>

lemma largestFrom_bound:
  "largestFrom li largest i rest = li \<or>
   (i \<le> largestFrom li largest i rest \<and> largestFrom li largest i rest < i + length rest)"
proof (induction rest arbitrary: li largest i)
  case Nil
  show ?case by simp
next
  case (Cons cur rest)
  from Cons[of i cur "Suc i"] Cons[of li largest "Suc i"] show ?case by auto
qed

lemma largestIndex_bound:
  assumes "components \<noteq> []"
  shows "largestIndex components < length components"
proof -
  from assms obtain c cs where "components = c # cs" by (cases components) auto
  with largestFrom_bound[of 0 c 1 cs] show ?thesis by (auto simp: largestIndex_def)
qed

lemma length_filter_zip:
  "length is = length xs \<Longrightarrow>
     length (filter (\<lambda>(i, x). P i) (zip is xs)) = length (filter P is)"
  by (induction "is" xs rule: list_induct2) auto

lemma length_filter_index:
  assumes "k < length xs"
  shows "length (filter (\<lambda>(i, x). i \<noteq> k) (zip [0..<length xs] xs)) = length xs - 1"
proof -
  have "length (filter (\<lambda>(i, x). i \<noteq> k) (zip [0..<length xs] xs))
                  = length (filter (\<lambda>i. i \<noteq> k) [0..<length xs])"
    by (rule length_filter_zip) simp
  also have "\<dots> = card ({i. i \<noteq> k} \<inter> set [0..<length xs])"
    by (rule distinct_length_filter) simp
  also have "{i. i \<noteq> k} \<inter> set [0..<length xs] = {0..<length xs} - {k}" by auto
  also from assms have "card \<dots> = length xs - 1" by simp
  finally show ?thesis .
qed

lemma detectExclaves_count:
  "int (length (detectExclaves state p)) = exclaveCount state p"
proof -
  let ?hexes = "map (\<lambda>c. (cell_q c, cell_r c)) (filter (\<lambda>c. land c \<and> owner c = p) (cells state))"
  let ?own = "\<lambda>hex. list_ex (\<lambda>ph. fst ph = fst hex \<and> snd ph = snd hex) ?hexes"
  let ?cs = "getConnectedComponents ?hexes ?own"
  have own: "?own hex \<longleftrightarrow> hex \<in> set ?hexes" for hex
    by (cases hex) (force simp: list_ex_iff)
  then have "filter ?own ?hexes = ?hexes" by (simp add: filter_id_conv)
  with getConnectedComponents_length[of ?hexes ?own]
  have len: "length ?cs = card (componentsOf (ownedHexesOf (cells state) p))"
    by (simp add: ownedHexesOf_def)
  show ?thesis
  proof (cases "?hexes = []")
    case True
    then have "ownedHexesOf (cells state) p = {}" by (simp add: ownedHexesOf_def)
    with True show ?thesis
      by (simp add: detectExclaves_def exclaveCount_def componentsOf_def)
  next
    case ne: False
    show ?thesis
    proof (cases "length ?cs \<le> 1")
      case True
      with ne len show ?thesis
        by (simp add: detectExclaves_def exclaveCount_def Let_def)
    next
      case False
      then have "?cs \<noteq> []" by auto
      from length_filter_index[OF largestIndex_bound[OF this]] False ne len
      show ?thesis
        by (simp add: detectExclaves_def exclaveCount_def Let_def)
    qed
  qed
qed

section \<open>Exclave scores\<close>

text \<open>
  \<open>updateExclaveScores\<close> writes the exclave count of every player listed in
  \<open>players\<close>, so the state the dice path of \<open>attack\<close> returns carries the
  scores of its own board.
\<close>

lemma fold_scores:
  "fold (\<lambda>q sc. sc(q := f q)) ps sc0 p = (if p \<in> set ps then f p else sc0 p)"
  by (induction ps arbitrary: sc0) auto

lemma updateExclaveScores_scores:
  "scores (updateExclaveScores s) p
     = (if p \<in> set (players s) then exclaveCount s p else scores s p)"
  by (simp add: updateExclaveScores_def fold_scores detectExclaves_count)

lemma exclaveCount_updateExclaveScores:
  "exclaveCount (updateExclaveScores s) p = exclaveCount s p"
  by (simp add: exclaveCount_def)

lemma attack_dice_scores:
  assumes "canAttack s f t"
    and tc: "find (\<lambda>c. cell_id c = t) (cells s) = Some tc"
    and "units tc \<noteq> 0"
    and "p \<in> set (players s)"
  shows "scores (fst (attack g s f t)) p = exclaveCount (fst (attack g s f t)) p"
proof -
  from assms(1) obtain fc where fc: "find (\<lambda>c. cell_id c = f) (cells s) = Some fc"
    by (elim canAttack_cells)
  obtain dice g' where
    roll: "rollDice g (units fc) (units tc) (current s) (owner tc) = (dice, g')"
    by (cases "rollDice g (units fc) (units tc) (current s) (owner tc)")
  from attack_dice_path[OF assms(1) fc tc assms(3) roll] assms(4) show ?thesis
    by (simp add: updateExclaveScores_scores exclaveCount_updateExclaveScores)
qed

lemma own_after:
  "ownedHexesOf (cells (fst (attack (\<lambda>_. 0) captureState 0 1))) 0 = {(0,0),(1,0),(2,0)}"
  by (simp add: ownedHexesOf_def captureState_def board_defs attack_def Let_def)

lemma own_before: "ownedHexesOf (cells captureState) 0 = {(0,0),(2,0)}"
  by (simp add: ownedHexesOf_def captureState_def board_defs)

lemma row3_connected: "connectedHexes {(0,0),(1,0),(2,0)}"
proof (rule connected_from_root[where x = "(0,0)"])
  let ?S = "{(0,0),(1,0),(2,0)} :: HexCoord set"
  have e1: "((0,0),(1,0)) \<in> hexAdj ?S" and e2: "((1,0),(2,0)) \<in> hexAdj ?S"
    by (simp_all add: hexAdj_def getNeighbors_def HEX_DIRECTIONS_def hex_add_def)
  then have "((0,0),(2,0)) \<in> (hexAdj ?S)\<^sup>*" by (meson r_into_rtrancl rtrancl_trans)
  with e1 show "\<And>b. b \<in> ?S \<Longrightarrow> ((0,0), b) \<in> (hexAdj ?S)\<^sup>*" by auto
qed

lemma ends_components: "componentsOf {(0,0),(2,0)} = {{(0,0)}, {(2,0)}}"
proof -
  have "hexAdj {(0,0),(2,0)} = {}"
    by (auto simp: hexAdj_def getNeighbors_def HEX_DIRECTIONS_def hex_add_def)
  then show ?thesis by (auto simp: componentsOf_def)
qed

text \<open>
  Claim C1, on both paths of \<open>attack\<close>. After a valid attack on a cell that holds
  units (the dice path), every player listed in \<open>players\<close> has the exclave count of the
  returned board as score. After a valid attack on a cell without units (the
  auto-capture path), the scores are those of the input state: the branch returns
  before the scores are recomputed, although the captured cell has changed hands.

  The instance below shows both. On \<open>lossState\<close> the dice are rolled and the score of
  player 0 is the exclave count of the returned board. On \<open>captureState\<close> the scores
  agree with the exclave count before the attack; player 0 then captures the empty
  middle cell, the three cells of player 0 form one connected group, so no exclave is
  left, but the returned state still carries the score 1.
\<close>

theorem attack_scores:
  assumes "canAttack s f t"
    and tc: "find (\<lambda>c. cell_id c = t) (cells s) = Some tc"
  shows "(units tc \<noteq> 0 \<longrightarrow>
            (\<forall>p\<in>set (players s).
               scores (fst (attack g s f t)) p = exclaveCount (fst (attack g s f t)) p)) \<and>
         (units tc = 0 \<longrightarrow> scores (fst (attack g s f t)) = scores s)"
proof (intro conjI impI ballI)
  fix p assume "units tc \<noteq> 0" "p \<in> set (players s)"
  with assms show "scores (fst (attack g s f t)) p = exclaveCount (fst (attack g s f t)) p"
    by (rule attack_dice_scores)
next
  assume z: "units tc = 0"
  from assms(1) obtain fc where fc: "find (\<lambda>c. cell_id c = f) (cells s) = Some fc"
    by (elim canAttack_cells)
  from attack_capture_path[OF assms(1) fc tc z, of g]
  show "scores (fst (attack g s f t)) = scores s" by simp
qed

theorem auto_capture_stale_scores:
  "canAttack lossState 0 1 \<and>
   scores (fst (attack (\<lambda>_. 0) lossState 0 1)) 0
     = exclaveCount (fst (attack (\<lambda>_. 0) lossState 0 1)) 0 \<and>
   canAttack captureState 0 1 \<and>
   scores captureState 0 = exclaveCount captureState 0 \<and>
   int (length (detectExclaves captureState 0)) = exclaveCount captureState 0 \<and>
   scores (fst (attack (\<lambda>_. 0) captureState 0 1)) 0 = 1 \<and>
   exclaveCount (fst (attack (\<lambda>_. 0) captureState 0 1)) 0 = 0 \<and>
   detectExclaves (fst (attack (\<lambda>_. 0) captureState 0 1)) 0 = []"
proof -
  have cl: "canAttack lossState 0 1" by (simp add: lossState_def board_defs)
  have tl: "find (\<lambda>c. cell_id c = 1) (cells lossState) = Some (mkCell 1 1 0 1 3)"
    by (simp add: lossState_def mkState_def mkCell_def)
  have nz: "units (mkCell 1 1 0 1 3) \<noteq> 0" by (simp add: mkCell_def)
  have pl: "0 \<in> set (players lossState)" by (simp add: lossState_def mkState_def)
  from attack_scores [OF cl tl, of "\<lambda>_. 0"] nz pl
  have dl: "scores (fst (attack (\<lambda>_. 0) lossState 0 1)) 0
              = exclaveCount (fst (attack (\<lambda>_. 0) lossState 0 1)) 0" by blast
  have ca: "canAttack captureState 0 1" by (simp add: captureState_def board_defs)
  have tc: "find (\<lambda>c. cell_id c = 1) (cells captureState) = Some (mkCell 1 1 0 1 0)"
    by (simp add: captureState_def mkState_def mkCell_def)
  have z: "units (mkCell 1 1 0 1 0) = 0" by (simp add: mkCell_def)
  have "componentsOf {(0,0),(2,0)} = {{(0,0)}, {(2::int,0::int)}}" by (rule ends_components)
  then have b: "exclaveCount captureState 0 = 1"
    by (simp add: exclaveCount_def own_before)
  have a: "exclaveCount (fst (attack (\<lambda>_. 0) captureState 0 1)) 0 = 0"
    using componentsOf_connected[OF _ row3_connected] by (simp add: exclaveCount_def own_after)
  have sb: "scores captureState 0 = 1" by (simp add: captureState_def)
  from attack_scores [OF ca tc, of "\<lambda>_. 0"] z sb
  have sa: "scores (fst (attack (\<lambda>_. 0) captureState 0 1)) 0 = 1" by simp
  have db: "length (detectExclaves captureState 0) = 1"
    by code_simp
  have da: "detectExclaves (fst (attack (\<lambda>_. 0) captureState 0 1)) 0 = []"
    by code_simp
  from cl dl ca a b sb sa db da show ?thesis by simp
qed

section \<open>Territory contiguity\<close>

lemma updateFirst_erase:
  assumes "\<And>c. eraseUnits (f c) = f' (eraseUnits c)"
  shows "map eraseUnits (updateFirst (atHex h) f cs) = updateFirst (atHex h) f' (map eraseUnits cs)"
  using assms by (induction cs) (auto simp: atHex_def eraseUnits_def)

lemma updateFirst_id: "(\<And>c. f c = c) \<Longrightarrow> updateFirst P f cs = cs"
  by (induction cs) auto

lemma claimHexes_erase:
  "map eraseUnits (claimHexes p t cs) = claimHexes p t (map eraseUnits cs)"
  unfolding claimHexes_def
proof (induction t arbitrary: cs)
  case Nil
  show ?case by simp
next
  case (Cons h t)
  have "map eraseUnits (updateFirst (atHex h) (\<lambda>c. c\<lparr>owner := p, units := 0\<rparr>) cs)
          = updateFirst (atHex h) (\<lambda>c. c\<lparr>owner := p, units := 0\<rparr>) (map eraseUnits cs)"
    by (rule updateFirst_erase) (simp add: eraseUnits_def)
  with Cons show ?case by simp
qed

lemma ensureOneUnit_erase:
  "map eraseUnits (ensureOneUnit t cs) = map eraseUnits cs"
  unfolding ensureOneUnit_def
proof (induction t arbitrary: cs)
  case Nil
  show ?case by simp
next
  case (Cons h t)
  have "map eraseUnits (updateFirst (atHex h) (\<lambda>c. if units c = 0 then c\<lparr>units := 1\<rparr> else c) cs)
          = updateFirst (atHex h) (\<lambda>c. c) (map eraseUnits cs)"
    by (rule updateFirst_erase) (simp add: eraseUnits_def)
  with Cons show ?case by (simp add: updateFirst_id)
qed

lemma distributeUnits_erase:
  assumes "distributeUnits r t cs g = Some (Inr (cs', g'))"
  shows "map eraseUnits cs' = map eraseUnits cs"
proof (rule distributeUnits_invariant
        [where Q = "\<lambda>xs. map eraseUnits xs = map eraseUnits cs", OF assms])
  fix h xs cell
  assume "map eraseUnits xs = map eraseUnits cs"
  moreover have "map eraseUnits (updateFirst (atHex h) (\<lambda>c. c\<lparr>units := units c + 1\<rparr>) xs)
          = updateFirst (atHex h) (\<lambda>c. c) (map eraseUnits xs)"
    by (rule updateFirst_erase) (simp add: eraseUnits_def)
  ultimately show "map eraseUnits (updateFirst (atHex h) (\<lambda>c. c\<lparr>units := units c + 1\<rparr>) xs)
          = map eraseUnits cs" by (simp add: updateFirst_id)
qed simp

lemma assignLoop_erase:
  assumes "assignLoop p ts cs g = Some (Inr (cs', g'))"
  shows "map eraseUnits cs' = claimAll p ts (map eraseUnits cs)"
  using assms
proof (induction ts arbitrary: p cs g)
  case Nil
  then show ?case by simp
next
  case (Cons t ts)
  from Cons.prems obtain r1 g1 where
    d: "distributeUnits (int (length t) * 4) t (claimHexes p t cs) g = Some (Inr (r1, g1))"
    and rest: "assignLoop (Suc p) ts (ensureOneUnit t r1) g1 = Some (Inr (cs', g'))"
    by (auto split: option.splits sum.splits)
  from Cons.IH[OF rest] distributeUnits_erase[OF d] show ?case
    by (simp add: ensureOneUnit_erase claimHexes_erase)
qed

lemma ownedHexesOf_erase: "ownedHexesOf (map eraseUnits cs) p = ownedHexesOf cs p"
  by (simp add: ownedHexesOf_def filter_map o_def eraseUnits_def)

lemma seeds16: "findOptimalSeeds land16 Two = [(0, -3), (3, 1)]"
  by code_simp

lemma voronoi16:
  "voronoiSplit land16 [(0, -3), (3, 1)] g =
     Inr ([[(0, 0), (0, -1), (-1, 0), (0, -2), (-1, -1), (1, -3), (0, -3), (2, -2)],
           [(1, 0), (0, 1), (2, 0), (1, 1), (3, -1), (2, 1), (3, -2), (3, 1)]], g)"
  by (simp add: voronoiSplit_def land16_def distance_def hex_subtract_def Let_def)

lemma balance16:
  "balanceTerritories
     [[(0, 0), (0, -1), (-1, 0), (0, -2), (-1, -1), (1, -3), (0, -3), (2, -2)],
      [(1, 0), (0, 1), (2, 0), (1, 1), (3, -1), (2, 1), (3, -2), (3, 1)]] twoPlayers g =
     ([[(0, 0), (0, -1), (-1, 0), (0, -2), (-1, -1), (1, -3), (0, -3), (2, -2)],
       [(1, 0), (0, 1), (2, 0), (1, 1), (3, -1), (2, 1), (3, -2), (3, 1)]], g)"
  by (simp add: balanceTerritories_def twoPlayers_def eval_nat_numeral Let_def)

lemma enforce16:
  "enforceContiguity
     [[(0, 0), (0, -1), (-1, 0), (0, -2), (-1, -1), (1, -3), (0, -3), (2, -2)],
      [(1, 0), (0, 1), (2, 0), (1, 1), (3, -1), (2, 1), (3, -2), (3, 1)]] =
     [[(0, 0), (0, -1), (-1, 0), (0, -2), (-1, -1), (1, -3), (0, -3), (2, -2)],
      [(1, 0), (2, 0), (0, 1), (1, 1), (3, -1), (2, 1), (3, -2), (3, 1)]]"
  by code_simp

lemma claim16:
  "ownedHexesOf (claimAll 0
     [[(0, 0), (0, -1), (-1, 0), (0, -2), (-1, -1), (1, -3), (0, -3), (2, -2)],
      [(1, 0), (2, 0), (0, 1), (1, 1), (3, -1), (2, 1), (3, -2), (3, 1)]]
     (map eraseUnits (generateCells land16))) 0
   = {(0, 0), (0, -1), (-1, 0), (0, -2), (-1, -1), (1, -3), (0, -3), (2, -2)}"
  by code_simp

lemma split16_assign:
  "splitTerritory (generateCells land16) twoPlayers g =
     assignLoop 0
       [[(0, 0), (0, -1), (-1, 0), (0, -2), (-1, -1), (1, -3), (0, -3), (2, -2)],
        [(1, 0), (2, 0), (0, 1), (1, 1), (3, -1), (2, 1), (3, -2), (3, 1)]]
       (generateCells land16) g"
proof -
  have lh: "map (\<lambda>c. (cell_q c, cell_r c)) (filter land (generateCells land16)) = land16"
    by code_simp
  have pc: "playerCount twoPlayers = Two" by (simp add: twoPlayers_def)
  have ne: "(int (length land16) < minTerritorySize twoPlayers * countOf Two) = False"
    by (simp add: land16_def twoPlayers_def)
  show ?thesis
    by (simp only: splitTerritory_def Let_def lh pc ne seeds16 voronoi16 balance16 enforce16
        assignPlayersToTerritories_def sum.case prod.case if_False)
qed

lemma split16_owned:
  assumes "splitTerritory (generateCells land16) twoPlayers g = Some (Inr (cs, g'))"
  shows "ownedHexesOf cs 0
           = {(0, 0), (0, -1), (-1, 0), (0, -2), (-1, -1), (1, -3), (0, -3), (2, -2)}"
proof -
  from assms have "assignLoop 0
     [[(0, 0), (0, -1), (-1, 0), (0, -2), (-1, -1), (1, -3), (0, -3), (2, -2)],
      [(1, 0), (2, 0), (0, 1), (1, 1), (3, -1), (2, 1), (3, -2), (3, 1)]]
     (generateCells land16) g = Some (Inr (cs, g'))"
    by (simp only: split16_assign)
  from assignLoop_erase[OF this] claim16 ownedHexesOf_erase[of cs 0] show ?thesis by simp
qed

text \<open>
  Claim C2, evaluated on a connected landmass of sixteen hexes with the reducer's
  configuration for two players. Whatever the generator draws, if \<open>splitTerritory\<close>
  returns, player 0 owns eight hexes of which \<open>(2, -2)\<close> touches none of the others:
  the hexes of player 0 do not form one connected component.
\<close>

theorem split_leaves_stray:
  assumes "splitTerritory (generateCells land16) twoPlayers g = Some (Inr (cs, g'))"
  shows "connectedHexes (set land16) \<and> \<not> oneComponent (ownedHexesOf cs 0)"
proof -
  have "\<not> connectedHexes
          {(0, 0), (0, -1), (-1, 0), (0, -2), (-1, -1), (1, -3), (0, -3), (2::int, -2::int)}"
    by (rule isolated_not_connected[where a = "(2, -2)" and b = "(0, 0)"])
       (simp_all add: getNeighbors_def HEX_DIRECTIONS_def hex_add_def)
  with split16_owned[OF assms] land16_connected show ?thesis
    by (simp add: oneComponent_def)
qed

theorem split_leaves_stray_witness:
  "\<exists>cs g'. splitTerritory (generateCells land16) twoPlayers eighths = Some (Inr (cs, g')) \<and>
     connectedHexes (set land16) \<and> \<not> oneComponent (ownedHexesOf cs 0)"
proof -
  have "(case splitTerritory (generateCells land16) twoPlayers eighths of
           Some (Inr (cs, g')) \<Rightarrow> True | _ \<Rightarrow> False)"
    by code_simp
  then obtain cs g' where
    sp: "splitTerritory (generateCells land16) twoPlayers eighths = Some (Inr (cs, g'))"
    by (auto split: option.splits sum.splits)
  from split_leaves_stray [OF sp] sp show ?thesis by blast
qed

section \<open>Landmass connectivity\<close>

text \<open>
  The blob test without the square root, for evaluation: \<open>sqrt d2 \<le> R\<close> is
  \<open>d2 \<le> R\<^sup>2\<close> for \<open>R \<ge> 0\<close>, and the probability test is \<open>sqrt d2 < R (3 + 8 x) / 10\<close>.
\<close>

lemma sqrt_le_iff_sq:
  assumes "0 \<le> a"
  shows "sqrt a \<le> b \<longleftrightarrow> 0 \<le> b \<and> a \<le> b\<^sup>2"
proof
  assume h: "sqrt a \<le> b"
  from assms have "0 \<le> sqrt a" by simp
  with h have "0 \<le> b" by linarith
  moreover from h have "a \<le> b\<^sup>2" by (rule sqrt_le_D)
  ultimately show "0 \<le> b \<and> a \<le> b\<^sup>2" by simp
next
  assume "0 \<le> b \<and> a \<le> b\<^sup>2"
  then show "sqrt a \<le> b" by (simp add: real_le_lsqrt)
qed

lemma sqrt_less_iff_sq:
  assumes "0 \<le> a"
  shows "sqrt a < c \<longleftrightarrow> 0 < c \<and> a < c\<^sup>2"
proof
  assume h: "sqrt a < c"
  from assms have "0 \<le> sqrt a" by simp
  with h have c: "0 < c" by linarith
  from h c assms have "a < c\<^sup>2"
    by (metis real_sqrt_less_iff real_sqrt_abs abs_of_pos)
  with c show "0 < c \<and> a < c\<^sup>2" by simp
next
  assume "0 < c \<and> a < c\<^sup>2"
  then show "sqrt a < c" by (simp add: real_less_lsqrt)
qed

lemma blobCell_code [code]:
  "blobCell cQ cR R hex st =
     (case st of
        (landMap, g) \<Rightarrow>
          let d2 = (fst hex - cQ)\<^sup>2 + (snd hex - cR)\<^sup>2
          in if 0 \<le> R \<and> d2 \<le> R\<^sup>2 then
               (case draw g of
                  (x, g') \<Rightarrow>
                    if R = 0 then (landMap, g')
                    else
                      let c = real_of_int R * (3 + 8 * x) / 10
                      in (if 0 < c \<and> real_of_int d2 < c\<^sup>2 then setLand hex landMap
                          else landMap, g'))
             else (landMap, g))"
proof -
  obtain landMap g where st: "st = (landMap, g)" by (cases st)
  obtain x g' where dr: "draw g = (x, g')" by (cases "draw g")
  let ?d2 = "(fst hex - cQ)\<^sup>2 + (snd hex - cR)\<^sup>2"
  have nn: "0 \<le> real_of_int ?d2" by simp
  have le: "sqrt (real_of_int ?d2) \<le> real_of_int R \<longleftrightarrow> 0 \<le> R \<and> ?d2 \<le> R\<^sup>2"
    unfolding sqrt_le_iff_sq[OF nn]
    by (metis of_int_0_le_iff of_int_le_iff of_int_power)
  have pr: "1 - sqrt (real_of_int ?d2) / real_of_int R + (x - 1 / 2) * 2 * (4 / 10) > 3 / 10
            \<longleftrightarrow> 0 < real_of_int R * (3 + 8 * x) / 10 \<and>
                real_of_int ?d2 < (real_of_int R * (3 + 8 * x) / 10)\<^sup>2"
    if "0 < R"
  proof -
    from that have R: "0 < real_of_int R" by simp
    have "1 - sqrt (real_of_int ?d2) / real_of_int R + (x - 1 / 2) * 2 * (4 / 10) > 3 / 10
          \<longleftrightarrow> sqrt (real_of_int ?d2) / real_of_int R < (3 + 8 * x) / 10"
      by (simp add: field_simps)
    also have "\<dots> \<longleftrightarrow> sqrt (real_of_int ?d2) < real_of_int R * (3 + 8 * x) / 10"
      using R by (simp add: field_simps)
    also have "\<dots> \<longleftrightarrow> 0 < real_of_int R * (3 + 8 * x) / 10 \<and>
                real_of_int ?d2 < (real_of_int R * (3 + 8 * x) / 10)\<^sup>2"
      by (rule sqrt_less_iff_sq[OF nn])
    finally show ?thesis .
  qed
  show ?thesis
  proof (cases "0 \<le> R \<and> ?d2 \<le> R\<^sup>2")
    case False
    then show ?thesis
      by (simp only: st blobCell_def Let_def prod.case le if_False)
  next
    case inside: True
    then have c1: "(0 \<le> R \<and> ?d2 \<le> R\<^sup>2) = True" by simp
    show ?thesis
    proof (cases "R = 0")
      case True
      then have c2: "(R = 0) = True" by simp
      show ?thesis
        by (simp only: st blobCell_def Let_def prod.case le dr c1 c2 if_True)
    next
      case False
      then have c2: "(R = 0) = False" by simp
      from False inside have "0 < R" by simp
      note c3 = pr[OF this]
      show ?thesis
        by (simp only: st blobCell_def Let_def prod.case le dr c1 c2 c3 if_True if_False)
    qed
  qed
qed

text \<open>
  Claim C8 as the code has it. \<open>generateLandmass\<close> returns the largest component of
  the land that the blob, tendril and smoothing stages leave. The returned hexes are
  always connected under 6-neighbour adjacency, and they form exactly one component,
  a whole component of that land, whenever some land is left; when none is left the
  result is the empty list.
\<close>

theorem landmass_connected:
  assumes "landStages config g = Inr landHexes"
  shows "generateLandmass config g = Inr (getLargestComponent landHexes) \<and>
         connectedHexes (set (getLargestComponent landHexes)) \<and>
         (landHexes \<noteq> [] \<longrightarrow>
            oneComponent (set (getLargestComponent landHexes)) \<and>
            set (getLargestComponent landHexes) \<in> componentsOf (set landHexes)) \<and>
         (landHexes = [] \<longrightarrow> getLargestComponent landHexes = [])"
proof -
  from assms have "generateLandmass config g = Inr (getLargestComponent landHexes)"
    by (simp add: generateLandmass_def)
  moreover have "landHexes = [] \<longrightarrow> getLargestComponent landHexes = []"
    by (simp add: getLargestComponent_def)
  moreover note getLargestComponent_connected[of landHexes]
    getLargestComponent_nonempty[of landHexes] getLargestComponent_component[of landHexes]
  ultimately show ?thesis by (simp add: oneComponent_def)
qed

theorem landmass_connected_witness:
  "landStages reducerConfig2 (\<lambda>_. 1 / 10)
     = Inr [(-4, -3), (-3, -4), (-3, -3), (-3, -2), (-2, -3)] \<and>
   generateLandmass reducerConfig2 (\<lambda>_. 1 / 10)
     = Inr (getLargestComponent [(-4, -3), (-3, -4), (-3, -3), (-3, -2), (-2, -3)]) \<and>
   oneComponent (set (getLargestComponent [(-4, -3), (-3, -4), (-3, -3), (-3, -2), (-2, -3)])) \<and>
   set (getLargestComponent [(-4, -3), (-3, -4), (-3, -3), (-3, -2), (-2, -3)])
     \<in> componentsOf (set [(-4, -3), (-3, -4), (-3, -3), (-3, -2), (-2, -3)])"
proof -
  have st: "landStages reducerConfig2 (\<lambda>_. 1 / 10)
              = Inr [(-4, -3), (-3, -4), (-3, -3), (-3, -2), (-2, -3)]"
    by code_simp
  from landmass_connected [OF st] st show ?thesis by simp
qed

text \<open>
  Claim C8 as stated fails when no land is left. With every draw equal to 0 each blob
  keeps its centre only, no tendril step places land, and the first smoothing pass
  removes the lone hexes: the result is empty, and the empty set is not one component.
\<close>

theorem landmass_may_be_empty:
  "generateLandmass reducerConfig2 (\<lambda>_. 0) = Inr [] \<and>
   \<not> oneComponent (set ([] :: HexCoord list))"
proof -
  have "generateLandmass reducerConfig2 (\<lambda>_. 0) = Inr []"
    by code_simp
  then show ?thesis by (simp add: oneComponent_def)
qed

end
